theory Spec2Isabelle
  imports Main "HOL-Library.AList" "HOL-Library.Product_Lexorder"
begin

section \<open>The DSATUR colouring of \<open>dsatur.py\<close>\<close>

text \<open>
  The function \<open>dsatur(graph)\<close> takes a Python dictionary from vertices to lists of
  neighbours and returns a dictionary from vertices to colours.

  \<^item> Vertices are Python integers (\<open>int\<close>); colours, degrees and saturation degrees are
    lengths and counters that start at 1 or 0 and only grow (\<open>nat\<close>).
  \<^item> \<open>graph\<close> and \<open>colors\<close> are dictionaries whose iteration order (the insertion order)
    is observable: \<open>max(graph.keys(), ...)\<close> keeps the first maximal key, and the
    returned dictionary lists the vertices in the order in which they were coloured.
    Both are association lists with distinct keys, in insertion order.
  \<^item> \<open>dsat\<close> and \<open>degree\<close> are dictionaries that are only read by key: maps.
  \<^item> \<open>uncolored\<close> is a Python \<open>set\<close>. Its iteration order is fixed by the hash table of
    the interpreter, not by the program, and \<open>max(uncolored, ...)\<close> keeps the first maximal
    element in that order. The model takes the iteration order of \<open>set(graph.keys())\<close>
    as the parameter \<open>it\<close> and represents the set by the list of its elements in that
    order; removing an element leaves the order of the others as it is (CPython marks
    the slot as deleted and never rebuilds the table on removal).
  \<^item> Every subscript \<open>d[k]\<close> raises \<open>KeyError\<close> on a missing key, \<open>set.remove\<close> raises
    \<open>KeyError\<close> on a missing element and \<open>max\<close> raises \<open>ValueError\<close> on an empty
    iterable: each is a branch of the model.
\<close>

type_synonym vertex = int
type_synonym graph = "(vertex \<times> vertex list) list"
type_synonym coloring = "(vertex \<times> nat) list"

datatype error = ValueError | KeyError vertex

subsection \<open>Python primitives\<close>

text \<open>\<open>d[k]\<close> on a dictionary.\<close>

definition getitem :: "(vertex \<rightharpoonup> 'v) \<Rightarrow> vertex \<Rightarrow> error + 'v" where
  "getitem d k = (case d k of None \<Rightarrow> Inl (KeyError k) | Some v \<Rightarrow> Inr v)"

text \<open>\<open>s.remove(x)\<close> on a set, kept as the list of its elements in iteration order.\<close>

definition set_remove :: "vertex \<Rightarrow> vertex list \<Rightarrow> error + vertex list" where
  "set_remove x s = (if x \<in> set s then Inr (removeAll x s) else Inl (KeyError x))"

text \<open>
  \<open>max(iterable, key=f)\<close>: the key of every item is computed in iteration order, an item
  replaces the current best only when its key is strictly greater, and an empty iterable
  raises \<open>ValueError\<close>.
\<close>

fun max_from :: "('a \<Rightarrow> error + 'k::linorder) \<Rightarrow> 'a \<Rightarrow> 'k \<Rightarrow> 'a list \<Rightarrow> error + 'a" where
  "max_from f best kb [] = Inr best"
| "max_from f best kb (x # xs) =
     (case f x of
        Inl e \<Rightarrow> Inl e
      | Inr kx \<Rightarrow> if kb < kx then max_from f x kx xs else max_from f best kb xs)"

fun py_max :: "('a \<Rightarrow> error + 'k::linorder) \<Rightarrow> 'a list \<Rightarrow> error + 'a" where
  "py_max f [] = Inl ValueError"
| "py_max f (x # xs) = (case f x of Inl e \<Rightarrow> Inl e | Inr kx \<Rightarrow> max_from f x kx xs)"

subsection \<open>The pieces of \<open>dsatur\<close>\<close>

text \<open>\<open>degree = {node: len(neighbors) for node, neighbors in graph.items()}\<close>\<close>

definition degree :: "graph \<Rightarrow> (vertex \<rightharpoonup> nat)" where
  "degree g = map_of (map (\<lambda>(node, neighbors). (node, length neighbors)) g)"

text \<open>\<open>for node in graph: dsat[node] = degree[node]\<close>\<close>

fun init_dsat :: "(vertex \<rightharpoonup> nat) \<Rightarrow> vertex list \<Rightarrow> (vertex \<rightharpoonup> nat) \<Rightarrow> error + (vertex \<rightharpoonup> nat)" where
  "init_dsat deg [] dsat = Inr dsat"
| "init_dsat deg (node # rest) dsat =
     (case getitem deg node of
        Inl e \<Rightarrow> Inl e
      | Inr d \<Rightarrow> init_dsat deg rest (dsat(node \<mapsto> d)))"

text \<open>
  \<open>{colors[n] for n in ns if n in colors}\<close>: the colours of the already coloured members
  of \<open>ns\<close>. The Python set is kept as the list of its elements (with repetitions); it is
  only used for membership and for its size, the number of distinct elements.
\<close>

definition neighbor_colors :: "coloring \<Rightarrow> vertex list \<Rightarrow> nat list" where
  "neighbor_colors colors ns = List.map_filter (map_of colors) ns"

definition set_len :: "nat list \<Rightarrow> nat" where
  "set_len xs = card (set xs)"

text \<open>\<open>color = 1; while color in used_colors: color += 1\<close>\<close>

function first_free :: "nat list \<Rightarrow> nat \<Rightarrow> nat" where
  "first_free used color = (if color \<in> set used then first_free used (color + 1) else color)"
  by pat_completeness auto
termination
proof (relation "measure (\<lambda>(used, color). Suc (Max (set used)) - color)")
  show "wf (measure (\<lambda>(used, color). Suc (Max (set used)) - color))"
    by simp
next
  fix used :: "nat list" and color :: nat
  assume "color \<in> set used"
  then have "color \<le> Max (set used)"
    by simp
  then show "((used, color + 1), (used, color))
      \<in> measure (\<lambda>(used, color). Suc (Max (set used)) - color)"
    by simp
qed

declare first_free.simps [simp del]

record state =
  colors :: coloring
  dsat :: "vertex \<rightharpoonup> nat"
  uncolored :: "vertex list"

text \<open>
  Lines 32 to 34, after the first vertex: for every neighbour that is still uncoloured,
  \<open>dsat[neighbor] = len({colors[n] for n in graph[neighbor] if n in colors})\<close>.
\<close>

fun update_first :: "graph \<Rightarrow> coloring \<Rightarrow> vertex list \<Rightarrow> vertex list \<Rightarrow> (vertex \<rightharpoonup> nat)
    \<Rightarrow> error + (vertex \<rightharpoonup> nat)" where
  "update_first g cs unc [] ds = Inr ds"
| "update_first g cs unc (neighbor # rest) ds =
     (if neighbor \<in> set unc then
        (case getitem (map_of g) neighbor of
           Inl e \<Rightarrow> Inl e
         | Inr ns \<Rightarrow>
             update_first g cs unc rest (ds(neighbor \<mapsto> set_len (neighbor_colors cs ns))))
      else update_first g cs unc rest ds)"

text \<open>
  Lines 52 to 58, in the main loop: the same, except that an empty set of neighbour
  colours stores \<open>degree[neighbor]\<close>.
\<close>

fun update_dsat :: "graph \<Rightarrow> (vertex \<rightharpoonup> nat) \<Rightarrow> coloring \<Rightarrow> vertex list \<Rightarrow> vertex list
    \<Rightarrow> (vertex \<rightharpoonup> nat) \<Rightarrow> error + (vertex \<rightharpoonup> nat)" where
  "update_dsat g deg cs unc [] ds = Inr ds"
| "update_dsat g deg cs unc (neighbor # rest) ds =
     (if neighbor \<in> set unc then
        (case getitem (map_of g) neighbor of
           Inl e \<Rightarrow> Inl e
         | Inr ns \<Rightarrow>
             (let colored_neighbors = neighbor_colors cs ns in
              if colored_neighbors \<noteq> [] then
                update_dsat g deg cs unc rest (ds(neighbor \<mapsto> set_len colored_neighbors))
              else
                (case getitem deg neighbor of
                   Inl e \<Rightarrow> Inl e
                 | Inr d \<Rightarrow> update_dsat g deg cs unc rest (ds(neighbor \<mapsto> d)))))
      else update_dsat g deg cs unc rest ds)"

text \<open>The key of line 39: \<open>lambda x: (dsat[x], degree[x])\<close>, compared as a tuple.\<close>

definition priority :: "(vertex \<rightharpoonup> nat) \<Rightarrow> (vertex \<rightharpoonup> nat) \<Rightarrow> vertex \<Rightarrow> error + (nat \<times> nat)" where
  "priority ds deg x =
     (case getitem ds x of
        Inl e \<Rightarrow> Inl e
      | Inr sat \<Rightarrow> (case getitem deg x of Inl e \<Rightarrow> Inl e | Inr d \<Rightarrow> Inr (sat, d)))"

text \<open>Line 39: \<open>next_vertex = max(uncolored, key=lambda x: (dsat[x], degree[x]))\<close>\<close>

definition next_vertex :: "(vertex \<rightharpoonup> nat) \<Rightarrow> state \<Rightarrow> error + vertex" where
  "next_vertex deg s = py_max (priority (dsat s) deg) (uncolored s)"

text \<open>Lines 39 to 58: one iteration of the main loop.\<close>

definition step :: "graph \<Rightarrow> (vertex \<rightharpoonup> nat) \<Rightarrow> state \<Rightarrow> error + state" where
  "step g deg s =
     (case next_vertex deg s of
        Inl e \<Rightarrow> Inl e
      | Inr v \<Rightarrow>
          (case getitem (map_of g) v of
             Inl e \<Rightarrow> Inl e
           | Inr ns \<Rightarrow>
               (let used_colors = neighbor_colors (colors s) ns;
                    color = first_free used_colors 1;
                    colors' = AList.update v color (colors s)
                in case set_remove v (uncolored s) of
                     Inl e \<Rightarrow> Inl e
                   | Inr unc' \<Rightarrow>
                       (case update_dsat g deg colors' unc' ns (dsat s) of
                          Inl e \<Rightarrow> Inl e
                        | Inr ds' \<Rightarrow>
                            Inr \<lparr>colors = colors', dsat = ds', uncolored = unc'\<rparr>))))"

text \<open>Lines 37 to 60: \<open>while uncolored: ...\<close>, then \<open>return colors\<close>.\<close>

function loop :: "graph \<Rightarrow> (vertex \<rightharpoonup> nat) \<Rightarrow> state \<Rightarrow> error + coloring" where
  "loop g deg s =
     (if uncolored s = [] then Inr (colors s)
      else (case step g deg s of Inl e \<Rightarrow> Inl e | Inr s' \<Rightarrow> loop g deg s'))"
  by pat_completeness auto
termination
proof (relation "measure (\<lambda>(g, deg, s). length (uncolored s))")
  show "wf (measure (\<lambda>(g, deg, s). length (uncolored s)))"
    by simp
next
  fix g :: graph and deg :: "vertex \<rightharpoonup> nat" and s s' :: state
  assume "step g deg s = Inr s'"
  then obtain v where v: "v \<in> set (uncolored s)" "uncolored s' = removeAll v (uncolored s)"
    by (auto simp: step_def set_remove_def Let_def split: sum.splits if_splits)
  have "length (removeAll x xs) < length xs" if "x \<in> set xs" for x :: vertex and xs
    using that by (induction xs) (auto simp: less_Suc_eq_le)
  with v show "((g, deg, s'), (g, deg, s)) \<in> measure (\<lambda>(g, deg, s). length (uncolored s))"
    by simp
qed

declare loop.simps [simp del]

text \<open>
  Lines 17 to 34: the initialisation, the choice of the first vertex and the first
  update of \<open>dsat\<close>. \<open>it\<close> is the iteration order of \<open>set(graph.keys())\<close>.
\<close>

definition init_state :: "vertex list \<Rightarrow> graph \<Rightarrow> error + state" where
  "init_state it g =
     (let deg = degree g in
      case init_dsat deg (map fst g) Map.empty of
        Inl e \<Rightarrow> Inl e
      | Inr ds \<Rightarrow>
          (case py_max (getitem deg) (map fst g) of
             Inl e \<Rightarrow> Inl e
           | Inr first_vertex \<Rightarrow>
               (let colors' = AList.update first_vertex 1 [] in
                case set_remove first_vertex it of
                  Inl e \<Rightarrow> Inl e
                | Inr unc \<Rightarrow>
                    (case getitem (map_of g) first_vertex of
                       Inl e \<Rightarrow> Inl e
                     | Inr ns \<Rightarrow>
                         (case update_first g colors' unc ns ds of
                            Inl e \<Rightarrow> Inl e
                          | Inr ds' \<Rightarrow>
                              Inr \<lparr>colors = colors', dsat = ds', uncolored = unc\<rparr>)))))"

definition dsatur :: "vertex list \<Rightarrow> graph \<Rightarrow> error + coloring" where
  "dsatur it g =
     (case init_state it g of Inl e \<Rightarrow> Inl e | Inr s \<Rightarrow> loop g (degree g) s)"

subsection \<open>The states at the loop test\<close>

text \<open>
  The state at every evaluation of \<open>while uncolored\<close>, in order: the state after the
  initialisation, then the state after each iteration. The last one is the state in which
  the loop stops.
\<close>

function loop_states :: "graph \<Rightarrow> (vertex \<rightharpoonup> nat) \<Rightarrow> state \<Rightarrow> state list" where
  "loop_states g deg s =
     (if uncolored s = [] then [s]
      else (case step g deg s of Inl e \<Rightarrow> [s] | Inr s' \<Rightarrow> s # loop_states g deg s'))"
  by pat_completeness auto
termination
proof (relation "measure (\<lambda>(g, deg, s). length (uncolored s))")
  show "wf (measure (\<lambda>(g, deg, s). length (uncolored s)))"
    by simp
next
  fix g :: graph and deg :: "vertex \<rightharpoonup> nat" and s s' :: state
  assume "step g deg s = Inr s'"
  then obtain v where v: "v \<in> set (uncolored s)" "uncolored s' = removeAll v (uncolored s)"
    by (auto simp: step_def set_remove_def Let_def split: sum.splits if_splits)
  have "length (removeAll x xs) < length xs" if "x \<in> set xs" for x :: vertex and xs
    using that by (induction xs) (auto simp: less_Suc_eq_le)
  with v show "((g, deg, s'), (g, deg, s)) \<in> measure (\<lambda>(g, deg, s). length (uncolored s))"
    by simp
qed

declare loop_states.simps [simp del]

definition dsatur_states :: "vertex list \<Rightarrow> graph \<Rightarrow> state list" where
  "dsatur_states it g =
     (case init_state it g of Inl e \<Rightarrow> [] | Inr s \<Rightarrow> loop_states g (degree g) s)"

subsection \<open>Well-formed inputs and states\<close>

text \<open>
  A dictionary has each key once, and \<open>it\<close> enumerates the set of the graph's keys.
\<close>

definition input_ok :: "vertex list \<Rightarrow> graph \<Rightarrow> bool" where
  "input_ok it g \<longleftrightarrow> distinct (map fst g) \<and> distinct it \<and> set it = set (map fst g)"

text \<open>
  What holds of the working state at every loop test: \<open>uncolored\<close> is the complement of
  the keys of \<open>colors\<close> among the vertices, and \<open>dsat\<close> has an entry for every vertex.
\<close>

definition state_ok :: "graph \<Rightarrow> state \<Rightarrow> bool" where
  "state_ok g s \<longleftrightarrow>
     distinct (uncolored s) \<and> distinct (map fst (colors s)) \<and>
     set (uncolored s) \<inter> set (map fst (colors s)) = {} \<and>
     set (uncolored s) \<union> set (map fst (colors s)) = set (map fst g) \<and>
     set (map fst g) \<subseteq> dom (dsat s)"

text \<open>The value that each of the two update loops stores for a neighbour \<open>v\<close>.\<close>

definition first_value :: "graph \<Rightarrow> coloring \<Rightarrow> vertex \<Rightarrow> nat option" where
  "first_value g cs v = map_option (\<lambda>ns. set_len (neighbor_colors cs ns)) (map_of g v)"

definition dsat_value :: "graph \<Rightarrow> (vertex \<rightharpoonup> nat) \<Rightarrow> coloring \<Rightarrow> vertex \<Rightarrow> nat option" where
  "dsat_value g deg cs v =
     (case map_of g v of
        None \<Rightarrow> None
      | Some ns \<Rightarrow>
          if neighbor_colors cs ns \<noteq> [] then Some (set_len (neighbor_colors cs ns)) else deg v)"

text \<open>
  The adjacency is symmetric when every vertex of the graph that is listed as a neighbour
  of \<open>u\<close> lists \<open>u\<close> in turn. References to identifiers that are not vertices are left
  unconstrained.
\<close>

definition symmetric :: "graph \<Rightarrow> bool" where
  "symmetric g \<longleftrightarrow>
     (\<forall>(u, ns) \<in> set g. \<forall>v \<in> set ns.
        case map_of g v of None \<Rightarrow> True | Some nv \<Rightarrow> u \<in> set nv)"

text \<open>
  The saturation degree as the specification words it: the number of distinct colours
  among the coloured neighbours, or the degree when no neighbour is coloured. \<open>cs\<close> is
  the colour assignment and \<open>ns\<close> the neighbour list of the vertex.
\<close>

definition spec_DSAT :: "coloring \<Rightarrow> vertex list \<Rightarrow> nat" where
  "spec_DSAT cs ns =
     (let cols = concat (map (\<lambda>n. map snd (filter (\<lambda>p. fst p = n) cs)) ns)
      in if cols = [] then length ns else length (remdups cols))"

text \<open>
  Ties and the orders that break them. \<open>max\<close> keeps the first maximal element of the
  sequence it is given, so a run depends on the insertion order of the dictionary's keys
  (first vertex) and on the iteration order of the set (later vertices) only where
  several elements share the maximal key. \<open>first_among_ties f xs ys\<close> says that the
  element \<open>max\<close> picks from \<open>xs\<close> comes, in the other sequence \<open>ys\<close>, before every other
  element of \<open>xs\<close> with the same key. \<open>same_tie_breaks it1 g1 it2 g2\<close> says so of every
  selection of the run on \<open>g1\<close> with set order \<open>it1\<close>, against the key order of \<open>g2\<close> and
  the set order \<open>it2\<close>.
\<close>

definition first_among_ties :: "('a \<Rightarrow> error + 'k::linorder) \<Rightarrow> 'a list \<Rightarrow> 'a list \<Rightarrow> bool" where
  "first_among_ties f xs ys \<longleftrightarrow>
     (case py_max f xs of
        Inl e \<Rightarrow> True
      | Inr v \<Rightarrow> \<forall>u\<in>set xs. u \<noteq> v \<and> f u = f v \<longrightarrow> v \<in> set (takeWhile (\<lambda>x. x \<noteq> u) ys))"

definition same_tie_breaks :: "vertex list \<Rightarrow> graph \<Rightarrow> vertex list \<Rightarrow> graph \<Rightarrow> bool" where
  "same_tie_breaks it1 g1 it2 g2 \<longleftrightarrow>
     first_among_ties (getitem (degree g1)) (map fst g1) (map fst g2) \<and>
     (\<forall>s\<in>set (dsatur_states it1 g1).
        first_among_ties (priority (dsat s) (degree g1)) (uncolored s) it2)"

text \<open>
  The greedy rule along the returned dictionary: every entry \<open>(v, c)\<close> carries the
  colour that the scan from 1 finds free among the colours of \<open>v\<close>'s neighbours in the
  entries before it. \<open>pre\<close> holds the entries already passed.
\<close>

fun greedy_from :: "graph \<Rightarrow> coloring \<Rightarrow> coloring \<Rightarrow> bool" where
  "greedy_from g pre [] = True"
| "greedy_from g pre (p # rest) =
     ((case map_of g (fst p) of
         None \<Rightarrow> False
       | Some ns \<Rightarrow> snd p = first_free (neighbor_colors pre ns) 1) \<and>
      greedy_from g (pre @ [p]) rest)"

section \<open>Properties of the primitives\<close>

lemma degree_eq: "degree g v = map_option length (map_of g v)"
  by (simp add: degree_def map_of_map)

lemma dom_degree: "dom (degree g) = set (map fst g)"
proof -
  have "dom (degree g) = dom (map_of g)"
    by (auto simp: degree_eq domIff)
  then show ?thesis
    by (simp add: dom_map_of_conv_image_fst)
qed

lemma getitem_Inr: "getitem d k = Inr v \<longleftrightarrow> d k = Some v"
  by (simp add: getitem_def split: option.splits)

lemma getitem_Some: "d k = Some v \<Longrightarrow> getitem d k = Inr v"
  by (simp add: getitem_def)

lemma init_dsat_spec:
  "set ks \<subseteq> dom deg \<Longrightarrow>
     \<exists>ds'. init_dsat deg ks ds = Inr ds' \<and> (\<forall>v. ds' v = (if v \<in> set ks then deg v else ds v))"
proof (induction ks arbitrary: ds)
  case Nil
  then show ?case by simp
next
  case (Cons k ks)
  then obtain d where d: "deg k = Some d" by auto
  from Cons.prems have "set ks \<subseteq> dom deg" by simp
  from Cons.IH[OF this, of "ds(k \<mapsto> d)"] obtain ds' where
    ds': "init_dsat deg ks (ds(k \<mapsto> d)) = Inr ds'"
      "\<forall>v. ds' v = (if v \<in> set ks then deg v else (ds(k \<mapsto> d)) v)"
    by blast
  show ?case
    using d ds' by (auto simp: getitem_Some)
qed

lemma update_first_spec:
  "set unc \<subseteq> dom (map_of g) \<Longrightarrow>
     \<exists>ds'. update_first g cs unc ns ds = Inr ds' \<and>
       (\<forall>v. ds' v = (if v \<in> set ns \<and> v \<in> set unc then first_value g cs v else ds v))"
proof (induction ns arbitrary: ds)
  case Nil
  then show ?case by simp
next
  case (Cons n ns)
  show ?case
  proof (cases "n \<in> set unc")
    case False
    from Cons.IH[OF Cons.prems, of ds] obtain ds' where
      "update_first g cs unc ns ds = Inr ds'"
      "\<forall>v. ds' v = (if v \<in> set ns \<and> v \<in> set unc then first_value g cs v else ds v)"
      by blast
    with False show ?thesis by auto
  next
    case True
    with Cons.prems obtain nn where nn: "map_of g n = Some nn" by auto
    let ?ds = "ds(n \<mapsto> set_len (neighbor_colors cs nn))"
    from Cons.IH[OF Cons.prems, of ?ds] obtain ds' where ds':
      "update_first g cs unc ns ?ds = Inr ds'"
      "\<forall>v. ds' v = (if v \<in> set ns \<and> v \<in> set unc then first_value g cs v else ?ds v)"
      by blast
    have "update_first g cs unc (n # ns) ds = Inr ds'"
      using True nn ds'(1) by (simp add: getitem_Some)
    moreover have "ds' v = (if v \<in> set (n # ns) \<and> v \<in> set unc then first_value g cs v else ds v)" for v
      using ds'(2) True nn by (simp add: first_value_def)
    ultimately show ?thesis by blast
  qed
qed

lemma update_dsat_spec:
  "set unc \<subseteq> dom (map_of g) \<Longrightarrow> set unc \<subseteq> dom deg \<Longrightarrow>
     \<exists>ds'. update_dsat g deg cs unc ns ds = Inr ds' \<and>
       (\<forall>v. ds' v = (if v \<in> set ns \<and> v \<in> set unc then dsat_value g deg cs v else ds v))"
proof (induction ns arbitrary: ds)
  case Nil
  then show ?case by simp
next
  case (Cons n ns)
  show ?case
  proof (cases "n \<in> set unc")
    case False
    from Cons.IH[OF Cons.prems, of ds] obtain ds' where
      "update_dsat g deg cs unc ns ds = Inr ds'"
      "\<forall>v. ds' v = (if v \<in> set ns \<and> v \<in> set unc then dsat_value g deg cs v else ds v)"
      by blast
    with False show ?thesis by auto
  next
    case True
    with Cons.prems obtain nn where nn: "map_of g n = Some nn" by auto
    from True Cons.prems obtain d where d: "deg n = Some d" by auto
    define x where "x = (if neighbor_colors cs nn \<noteq> [] then set_len (neighbor_colors cs nn) else d)"
    have dv: "dsat_value g deg cs n = Some x"
      using nn d by (simp add: dsat_value_def x_def)
    from Cons.IH[OF Cons.prems, of "ds(n \<mapsto> x)"] obtain ds' where ds':
      "update_dsat g deg cs unc ns (ds(n \<mapsto> x)) = Inr ds'"
      "\<forall>v. ds' v = (if v \<in> set ns \<and> v \<in> set unc then dsat_value g deg cs v else (ds(n \<mapsto> x)) v)"
      by blast
    have "update_dsat g deg cs unc (n # ns) ds = Inr ds'"
      using True nn d ds'(1)
      by (cases "neighbor_colors cs nn = []") (simp_all add: getitem_Some x_def Let_def)
    moreover have "ds' v = (if v \<in> set (n # ns) \<and> v \<in> set unc then dsat_value g deg cs v else ds v)" for v
      using ds'(2) True dv by simp
    ultimately show ?thesis by blast
  qed
qed

lemma max_from_spec:
  assumes "\<forall>x\<in>set xs. \<exists>k. f x = Inr k"
  shows "\<exists>v kv. max_from f b kb xs = Inr v \<and>
    ((v = b \<and> kv = kb \<and> (\<forall>u\<in>set xs. \<forall>ku. f u = Inr ku \<longrightarrow> ku \<le> kb)) \<or>
     (\<exists>pre post. xs = pre @ v # post \<and> f v = Inr kv \<and> kb < kv \<and>
        (\<forall>u\<in>set pre. \<forall>ku. f u = Inr ku \<longrightarrow> ku < kv) \<and>
        (\<forall>u\<in>set post. \<forall>ku. f u = Inr ku \<longrightarrow> ku \<le> kv)))"
  using assms
proof (induction xs arbitrary: b kb)
  case Nil
  then show ?case by simp
next
  case (Cons x xs)
  from Cons.prems obtain kx where kx: "f x = Inr kx" by auto
  from Cons.prems have defd: "\<forall>x\<in>set xs. \<exists>k. f x = Inr k" by simp
  show ?case
  proof (cases "kb < kx")
    case True
    from Cons.IH[OF defd, of x kx] obtain v kv where
      r: "max_from f x kx xs = Inr v" and
      d: "(v = x \<and> kv = kx \<and> (\<forall>u\<in>set xs. \<forall>ku. f u = Inr ku \<longrightarrow> ku \<le> kx)) \<or>
          (\<exists>pre post. xs = pre @ v # post \<and> f v = Inr kv \<and> kx < kv \<and>
            (\<forall>u\<in>set pre. \<forall>ku. f u = Inr ku \<longrightarrow> ku < kv) \<and>
            (\<forall>u\<in>set post. \<forall>ku. f u = Inr ku \<longrightarrow> ku \<le> kv))"
      by blast
    have res: "max_from f b kb (x # xs) = Inr v"
      using kx True r by simp
    from d show ?thesis
    proof
      assume a: "v = x \<and> kv = kx \<and> (\<forall>u\<in>set xs. \<forall>ku. f u = Inr ku \<longrightarrow> ku \<le> kx)"
      then have "x # xs = [] @ v # xs \<and> f v = Inr kv \<and> kb < kv \<and>
          (\<forall>u\<in>set []. \<forall>ku. f u = Inr ku \<longrightarrow> ku < kv) \<and>
          (\<forall>u\<in>set xs. \<forall>ku. f u = Inr ku \<longrightarrow> ku \<le> kv)"
        using kx True by simp
      with res show ?thesis by blast
    next
      assume "\<exists>pre post. xs = pre @ v # post \<and> f v = Inr kv \<and> kx < kv \<and>
            (\<forall>u\<in>set pre. \<forall>ku. f u = Inr ku \<longrightarrow> ku < kv) \<and>
            (\<forall>u\<in>set post. \<forall>ku. f u = Inr ku \<longrightarrow> ku \<le> kv)"
      then obtain pre post where p: "xs = pre @ v # post" "f v = Inr kv" "kx < kv"
            "\<forall>u\<in>set pre. \<forall>ku. f u = Inr ku \<longrightarrow> ku < kv"
            "\<forall>u\<in>set post. \<forall>ku. f u = Inr ku \<longrightarrow> ku \<le> kv"
        by blast
      have "x # xs = (x # pre) @ v # post \<and> f v = Inr kv \<and> kb < kv \<and>
          (\<forall>u\<in>set (x # pre). \<forall>ku. f u = Inr ku \<longrightarrow> ku < kv) \<and>
          (\<forall>u\<in>set post. \<forall>ku. f u = Inr ku \<longrightarrow> ku \<le> kv)"
        using p kx True by auto
      with res show ?thesis by blast
    qed
  next
    case False
    from Cons.IH[OF defd, of b kb] obtain v kv where
      r: "max_from f b kb xs = Inr v" and
      d: "(v = b \<and> kv = kb \<and> (\<forall>u\<in>set xs. \<forall>ku. f u = Inr ku \<longrightarrow> ku \<le> kb)) \<or>
          (\<exists>pre post. xs = pre @ v # post \<and> f v = Inr kv \<and> kb < kv \<and>
            (\<forall>u\<in>set pre. \<forall>ku. f u = Inr ku \<longrightarrow> ku < kv) \<and>
            (\<forall>u\<in>set post. \<forall>ku. f u = Inr ku \<longrightarrow> ku \<le> kv))"
      by blast
    have res: "max_from f b kb (x # xs) = Inr v"
      using kx False r by simp
    from d show ?thesis
    proof
      assume "v = b \<and> kv = kb \<and> (\<forall>u\<in>set xs. \<forall>ku. f u = Inr ku \<longrightarrow> ku \<le> kb)"
      then have "v = b \<and> kv = kb \<and> (\<forall>u\<in>set (x # xs). \<forall>ku. f u = Inr ku \<longrightarrow> ku \<le> kb)"
        using kx False by auto
      with res show ?thesis by blast
    next
      assume "\<exists>pre post. xs = pre @ v # post \<and> f v = Inr kv \<and> kb < kv \<and>
            (\<forall>u\<in>set pre. \<forall>ku. f u = Inr ku \<longrightarrow> ku < kv) \<and>
            (\<forall>u\<in>set post. \<forall>ku. f u = Inr ku \<longrightarrow> ku \<le> kv)"
      then obtain pre post where p: "xs = pre @ v # post" "f v = Inr kv" "kb < kv"
            "\<forall>u\<in>set pre. \<forall>ku. f u = Inr ku \<longrightarrow> ku < kv"
            "\<forall>u\<in>set post. \<forall>ku. f u = Inr ku \<longrightarrow> ku \<le> kv"
        by blast
      have "x # xs = (x # pre) @ v # post \<and> f v = Inr kv \<and> kb < kv \<and>
          (\<forall>u\<in>set (x # pre). \<forall>ku. f u = Inr ku \<longrightarrow> ku < kv) \<and>
          (\<forall>u\<in>set post. \<forall>ku. f u = Inr ku \<longrightarrow> ku \<le> kv)"
        using p kx False by auto
      with res show ?thesis by blast
    qed
  qed
qed

lemma py_max_spec:
  assumes "xs \<noteq> []" and "\<forall>x\<in>set xs. \<exists>k. f x = Inr k"
  shows "\<exists>v kv pre post. py_max f xs = Inr v \<and> xs = pre @ v # post \<and> f v = Inr kv \<and>
        (\<forall>u\<in>set pre. \<forall>ku. f u = Inr ku \<longrightarrow> ku < kv) \<and>
        (\<forall>u\<in>set post. \<forall>ku. f u = Inr ku \<longrightarrow> ku \<le> kv)"
proof -
  from assms(1) obtain x rest where xs: "xs = x # rest" by (cases xs) auto
  with assms(2) obtain kx where kx: "f x = Inr kx" by auto
  from assms(2) xs have "\<forall>y\<in>set rest. \<exists>k. f y = Inr k" by simp
  from max_from_spec[OF this, of x kx] obtain v kv where
      r: "max_from f x kx rest = Inr v" and
      d: "(v = x \<and> kv = kx \<and> (\<forall>u\<in>set rest. \<forall>ku. f u = Inr ku \<longrightarrow> ku \<le> kx)) \<or>
          (\<exists>pre post. rest = pre @ v # post \<and> f v = Inr kv \<and> kx < kv \<and>
            (\<forall>u\<in>set pre. \<forall>ku. f u = Inr ku \<longrightarrow> ku < kv) \<and>
            (\<forall>u\<in>set post. \<forall>ku. f u = Inr ku \<longrightarrow> ku \<le> kv))"
    by blast
  have res: "py_max f xs = Inr v"
    using xs kx r by simp
  from d show ?thesis
  proof
    assume "v = x \<and> kv = kx \<and> (\<forall>u\<in>set rest. \<forall>ku. f u = Inr ku \<longrightarrow> ku \<le> kx)"
    then have "xs = [] @ v # rest \<and> f v = Inr kv \<and>
        (\<forall>u\<in>set []. \<forall>ku. f u = Inr ku \<longrightarrow> ku < kv) \<and>
        (\<forall>u\<in>set rest. \<forall>ku. f u = Inr ku \<longrightarrow> ku \<le> kv)"
      using xs kx by simp
    with res show ?thesis by blast
  next
    assume "\<exists>pre post. rest = pre @ v # post \<and> f v = Inr kv \<and> kx < kv \<and>
            (\<forall>u\<in>set pre. \<forall>ku. f u = Inr ku \<longrightarrow> ku < kv) \<and>
            (\<forall>u\<in>set post. \<forall>ku. f u = Inr ku \<longrightarrow> ku \<le> kv)"
    then obtain pre post where p: "rest = pre @ v # post" "f v = Inr kv" "kx < kv"
            "\<forall>u\<in>set pre. \<forall>ku. f u = Inr ku \<longrightarrow> ku < kv"
            "\<forall>u\<in>set post. \<forall>ku. f u = Inr ku \<longrightarrow> ku \<le> kv"
      by blast
    have "xs = (x # pre) @ v # post \<and> f v = Inr kv \<and>
          (\<forall>u\<in>set (x # pre). \<forall>ku. f u = Inr ku \<longrightarrow> ku < kv) \<and>
          (\<forall>u\<in>set post. \<forall>ku. f u = Inr ku \<longrightarrow> ku \<le> kv)"
      using p kx xs by auto
    with res show ?thesis by blast
  qed
qed

lemma first_free_ge: "k \<le> first_free used k"
proof (induction used k rule: first_free.induct)
  case (1 used color)
  show ?case
  proof (cases "color \<in> set used")
    case True
    with 1 have "color + 1 \<le> first_free used (color + 1)" by simp
    with True show ?thesis by (subst first_free.simps) simp
  next
    case False
    then show ?thesis by (subst first_free.simps) simp
  qed
qed

lemma first_free_notin: "first_free used k \<notin> set used"
proof (induction used k rule: first_free.induct)
  case (1 used color)
  show ?case
  proof (cases "color \<in> set used")
    case True
    with 1 show ?thesis by (subst first_free.simps) simp
  next
    case False
    then show ?thesis by (subst first_free.simps) simp
  qed
qed

lemma first_free_least: "k \<le> j \<Longrightarrow> j < first_free used k \<Longrightarrow> j \<in> set used"
proof (induction used k rule: first_free.induct)
  case (1 used color)
  show ?case
  proof (cases "color \<in> set used")
    case True
    show ?thesis
    proof (cases "j = color")
      case True
      with \<open>color \<in> set used\<close> show ?thesis by simp
    next
      case False
      with "1.prems" have "color + 1 \<le> j" by simp
      moreover have "j < first_free used (color + 1)"
        using "1.prems"(2) True by (subst (asm) first_free.simps) simp
      ultimately show ?thesis using "1.IH"[OF True] by blast
    qed
  next
    case False
    with "1.prems" show ?thesis by (subst (asm) first_free.simps) simp
  qed
qed

lemma first_free_bound: "first_free used 1 \<le> card (set used) + 1"
proof -
  let ?c = "first_free used 1"
  have "{1..<?c} \<subseteq> set used"
    using first_free_least[of 1 _ used] by auto
  then have "card {1..<?c} \<le> card (set used)"
    by (intro card_mono) simp_all
  then show ?thesis by simp
qed

lemma update_fresh: "k \<notin> fst ` set al \<Longrightarrow> AList.update k v al = al @ [(k, v)]"
  by (induction al) auto

lemma dsat_value_defined:
  "v \<in> set (map fst g) \<Longrightarrow> \<exists>d. dsat_value g (degree g) cs v = Some d"
proof -
  assume "v \<in> set (map fst g)"
  then have "v \<in> dom (map_of g)" and "v \<in> dom (degree g)"
    by (simp_all add: dom_map_of_conv_image_fst dom_degree)
  then obtain ns d where "map_of g v = Some ns" "degree g v = Some d"
    by auto
  then show ?thesis
    by (simp add: dsat_value_def)
qed

lemma first_value_defined:
  "v \<in> set (map fst g) \<Longrightarrow> \<exists>d. first_value g cs v = Some d"
proof -
  assume "v \<in> set (map fst g)"
  then have "v \<in> dom (map_of g)"
    by (simp add: dom_map_of_conv_image_fst)
  then obtain ns where "map_of g v = Some ns"
    by auto
  then show ?thesis
    by (simp add: first_value_def)
qed

lemma priority_defined:
  assumes "state_ok g s" and "u \<in> set (uncolored s)"
  shows "\<exists>k. priority (dsat s) (degree g) u = Inr k"
proof -
  from assms have u: "u \<in> set (map fst g)"
    by (auto simp: state_ok_def)
  with assms(1) have "u \<in> dom (dsat s)"
    by (auto simp: state_ok_def)
  moreover from u have "u \<in> dom (degree g)"
    by (simp add: dom_degree)
  ultimately obtain a b where "dsat s u = Some a" "degree g u = Some b"
    by auto
  then show ?thesis
    by (simp add: priority_def getitem_Some)
qed

lemma next_vertex_spec:
  assumes "state_ok g s" and "uncolored s \<noteq> []"
  shows "\<exists>v kv pre post. next_vertex (degree g) s = Inr v \<and> uncolored s = pre @ v # post \<and>
        priority (dsat s) (degree g) v = Inr kv \<and>
        (\<forall>u\<in>set pre. \<forall>ku. priority (dsat s) (degree g) u = Inr ku \<longrightarrow> ku < kv) \<and>
        (\<forall>u\<in>set post. \<forall>ku. priority (dsat s) (degree g) u = Inr ku \<longrightarrow> ku \<le> kv)"
  unfolding next_vertex_def
  using py_max_spec[OF assms(2), of "priority (dsat s) (degree g)"] priority_defined[OF assms(1)]
  by blast

lemma step_result:
  assumes ok: "state_ok g s" and nv: "next_vertex (degree g) s = Inr v"
    and v: "v \<in> set (uncolored s)"
  shows "\<exists>ns s'. map_of g v = Some ns \<and> step g (degree g) s = Inr s' \<and>
      colors s' = colors s @ [(v, first_free (neighbor_colors (colors s) ns) 1)] \<and>
      uncolored s' = removeAll v (uncolored s) \<and>
      (\<forall>u. dsat s' u = (if u \<in> set ns \<and> u \<in> set (uncolored s')
                         then dsat_value g (degree g) (colors s') u else dsat s u))"
proof -
  from ok v have vk: "v \<in> set (map fst g)" and fresh: "v \<notin> fst ` set (colors s)"
    by (auto simp: state_ok_def)
  then obtain ns where ns: "map_of g v = Some ns"
    by (auto simp: dom_map_of_conv_image_fst[symmetric])
  define c where "c = first_free (neighbor_colors (colors s) ns) 1"
  define cs' where "cs' = colors s @ [(v, c)]"
  define unc' where "unc' = removeAll v (uncolored s)"
  have upd: "AList.update v c (colors s) = cs'"
    using fresh by (simp add: update_fresh cs'_def)
  have rem: "set_remove v (uncolored s) = Inr unc'"
    using v by (simp add: set_remove_def unc'_def)
  have sub: "set unc' \<subseteq> set (map fst g)"
    using ok by (auto simp: state_ok_def unc'_def)
  then have "set unc' \<subseteq> dom (map_of g)" and "set unc' \<subseteq> dom (degree g)"
    by (simp_all add: dom_map_of_conv_image_fst dom_degree)
  from update_dsat_spec[OF this, of cs' ns "dsat s"] obtain ds' where ds':
    "update_dsat g (degree g) cs' unc' ns (dsat s) = Inr ds'"
    "\<forall>u. ds' u = (if u \<in> set ns \<and> u \<in> set unc' then dsat_value g (degree g) cs' u else dsat s u)"
    by blast
  have upd': "AList.update v (first_free (neighbor_colors (colors s) ns) (Suc 0)) (colors s) = cs'"
    using upd by (simp add: c_def)
  have "step g (degree g) s = Inr \<lparr>colors = cs', dsat = ds', uncolored = unc'\<rparr>"
    using nv ns rem ds'(1) by (simp add: step_def getitem_Some Let_def upd')
  with ns ds'(2) show ?thesis
    by (simp add: cs'_def c_def unc'_def)
qed

lemma step_ok:
  assumes ok: "state_ok g s" and ne: "uncolored s \<noteq> []"
  shows "\<exists>s'. step g (degree g) s = Inr s' \<and> state_ok g s'"
proof -
  from next_vertex_spec[OF ok ne] obtain v pre post where
    nv: "next_vertex (degree g) s = Inr v" and split: "uncolored s = pre @ v # post"
    by blast
  then have v: "v \<in> set (uncolored s)" by simp
  from step_result[OF ok nv v] obtain ns s' where r:
    "map_of g v = Some ns" "step g (degree g) s = Inr s'"
    "colors s' = colors s @ [(v, first_free (neighbor_colors (colors s) ns) 1)]"
    "uncolored s' = removeAll v (uncolored s)"
    "\<forall>u. dsat s' u = (if u \<in> set ns \<and> u \<in> set (uncolored s')
                         then dsat_value g (degree g) (colors s') u else dsat s u)"
    by blast
  have d1: "distinct (uncolored s')"
    using ok r(4) by (simp add: state_ok_def distinct_removeAll)
  have d2: "distinct (map fst (colors s'))"
    using ok v r(3) by (auto simp: state_ok_def)
  have d3: "set (uncolored s') \<inter> set (map fst (colors s')) = {}"
    using ok v r(3,4) by (auto simp: state_ok_def)
  have d4: "set (uncolored s') \<union> set (map fst (colors s')) = set (map fst g)"
    using ok v r(3,4) by (auto simp: state_ok_def)
  have d5: "set (map fst g) \<subseteq> dom (dsat s')"
  proof
    fix u assume u: "u \<in> set (map fst g)"
    show "u \<in> dom (dsat s')"
    proof (cases "u \<in> set ns \<and> u \<in> set (uncolored s')")
      case True
      with r(5) have "dsat s' u = dsat_value g (degree g) (colors s') u" by simp
      with dsat_value_defined[OF u, of "colors s'"] show ?thesis by auto
    next
      case False
      with r(5) have "dsat s' u = dsat s u" by auto
      moreover from ok u have "u \<in> dom (dsat s)" by (auto simp: state_ok_def)
      ultimately show ?thesis by auto
    qed
  qed
  from d1 d2 d3 d4 d5 have "state_ok g s'"
    by (simp add: state_ok_def)
  with r(2) show ?thesis by blast
qed

lemma init_state_spec:
  assumes "input_ok it g" and "g \<noteq> []"
  shows "\<exists>v ns s. init_state it g = Inr s \<and> map_of g v = Some ns \<and>
      py_max (getitem (degree g)) (map fst g) = Inr v \<and>
      colors s = [(v, 1)] \<and> uncolored s = removeAll v it \<and>
      (\<forall>u. dsat s u = (if u \<in> set ns \<and> u \<in> set (uncolored s)
                         then first_value g [(v, 1)] u else degree g u))"
proof -
  let ?deg = "degree g"
  have "set (map fst g) \<subseteq> dom ?deg"
    by (simp add: dom_degree)
  from init_dsat_spec[OF this, of Map.empty] obtain ds where ds:
    "init_dsat ?deg (map fst g) Map.empty = Inr ds"
    "\<forall>v. ds v = (if v \<in> set (map fst g) then ?deg v else None)"
    by blast
  have ds_eq: "ds u = ?deg u" for u
  proof (cases "u \<in> set (map fst g)")
    case True
    with ds(2) show ?thesis by simp
  next
    case False
    then have "u \<notin> dom ?deg" by (simp add: dom_degree)
    then have "?deg u = None" by (simp add: domIff)
    with False ds(2) show ?thesis by simp
  qed
  have defd: "\<forall>x\<in>set (map fst g). \<exists>k. getitem ?deg x = Inr k"
    using dom_degree[of g] by (auto simp: getitem_Inr)
  from assms(2) have "map fst g \<noteq> []" by simp
  from py_max_spec[OF this defd] obtain v pre post where
    v: "py_max (getitem ?deg) (map fst g) = Inr v" "map fst g = pre @ v # post"
    by blast
  then have vk: "v \<in> set (map fst g)"
    by simp
  then obtain ns where ns: "map_of g v = Some ns"
    by (auto simp: dom_map_of_conv_image_fst[symmetric])
  define unc where "unc = removeAll v it"
  have rem: "set_remove v it = Inr unc"
    using vk assms(1) by (simp add: set_remove_def unc_def input_ok_def)
  have "set unc \<subseteq> dom (map_of g)"
    using assms(1) by (auto simp: unc_def input_ok_def dom_map_of_conv_image_fst)
  from update_first_spec[OF this, of "[(v, 1)]" ns ds] obtain ds' where ds':
    "update_first g [(v, 1)] unc ns ds = Inr ds'"
    "\<forall>u. ds' u = (if u \<in> set ns \<and> u \<in> set unc then first_value g [(v, 1)] u else ds u)"
    by blast
  have "init_state it g = Inr \<lparr>colors = [(v, 1)], dsat = ds', uncolored = unc\<rparr>"
    using ds(1) v(1) rem ns ds'(1) by (simp add: init_state_def Let_def getitem_Some)
  with ns v(1) ds'(2) show ?thesis
    by (simp add: unc_def ds_eq)
qed

lemma init_state_ok:
  assumes "input_ok it g" and "init_state it g = Inr s"
  shows "state_ok g s"
proof -
  have "g \<noteq> []"
    using assms(2) by (auto simp: init_state_def Let_def)
  from init_state_spec[OF assms(1) this] assms(2) obtain v ns where r:
    "map_of g v = Some ns" "colors s = [(v, 1)]" "uncolored s = removeAll v it"
    "\<forall>u. dsat s u = (if u \<in> set ns \<and> u \<in> set (uncolored s)
                         then first_value g [(v, 1)] u else degree g u)"
    by auto
  from r(1) have vk: "v \<in> set (map fst g)"
    by (auto dest: map_of_SomeD intro: rev_image_eqI)
  have d5: "set (map fst g) \<subseteq> dom (dsat s)"
  proof
    fix u assume u: "u \<in> set (map fst g)"
    show "u \<in> dom (dsat s)"
    proof (cases "u \<in> set ns \<and> u \<in> set (uncolored s)")
      case True
      with r(4) have "dsat s u = first_value g [(v, 1)] u" by simp
      with first_value_defined[OF u, of "[(v, 1)]"] show ?thesis by auto
    next
      case False
      with r(4) have "dsat s u = degree g u" by auto
      moreover from u have "u \<in> dom (degree g)" by (simp add: dom_degree)
      ultimately show ?thesis by auto
    qed
  qed
  have "distinct (uncolored s)"
    using assms(1) r(3) by (simp add: input_ok_def distinct_removeAll)
  moreover have "set (uncolored s) \<inter> set (map fst (colors s)) = {}"
    using r(2,3) by simp
  moreover have "set (uncolored s) \<union> set (map fst (colors s)) = set (map fst g)"
    using assms(1) r(2,3) vk by (auto simp: input_ok_def)
  ultimately show ?thesis
    using d5 r(2) by (simp add: state_ok_def)
qed

lemma loop_states_invariant:
  assumes pres: "\<And>s s'. state_ok g s \<Longrightarrow> I s \<Longrightarrow> uncolored s \<noteq> [] \<Longrightarrow>
                   step g (degree g) s = Inr s' \<Longrightarrow> I s'"
  shows "state_ok g s \<Longrightarrow> I s \<Longrightarrow> \<forall>t\<in>set (loop_states g (degree g) s). state_ok g t \<and> I t"
proof (induction "length (uncolored s)" arbitrary: s rule: less_induct)
  case less
  show ?case
  proof (cases "uncolored s = []")
    case True
    then have "loop_states g (degree g) s = [s]"
      by (subst loop_states.simps) simp
    with less.prems show ?thesis by simp
  next
    case False
    from step_ok[OF less.prems(1) False] obtain s' where
      s': "step g (degree g) s = Inr s'" "state_ok g s'" by blast
    have I': "I s'"
      using pres[OF less.prems(1,2) False s'(1)] .
    have shorter: "length (uncolored s') < length (uncolored s)"
    proof -
      from s'(1) obtain v where "v \<in> set (uncolored s)" "uncolored s' = removeAll v (uncolored s)"
        by (auto simp: step_def set_remove_def Let_def split: sum.splits if_splits)
      moreover have "length (removeAll x xs) < length xs" if "x \<in> set xs" for x :: vertex and xs
        using that by (induction xs) (auto simp: less_Suc_eq_le)
      ultimately show ?thesis by simp
    qed
    have eq: "loop_states g (degree g) s = s # loop_states g (degree g) s'"
      using False s'(1) by (subst loop_states.simps) simp
    from less.hyps[OF shorter s'(2) I'] less.prems eq show ?thesis
      by simp
  qed
qed

lemma loop_last:
  "state_ok g s \<Longrightarrow>
     loop g (degree g) s = Inr (colors (last (loop_states g (degree g) s))) \<and>
     uncolored (last (loop_states g (degree g) s)) = [] \<and>
     loop_states g (degree g) s \<noteq> [] \<and>
     map (\<lambda>t. length (colors t)) (loop_states g (degree g) s) =
       [length (colors s) ..< length (colors s) + length (uncolored s) + 1]"
proof (induction "length (uncolored s)" arbitrary: s rule: less_induct)
  case less
  show ?case
  proof (cases "uncolored s = []")
    case True
    then have "loop_states g (degree g) s = [s]"
      by (subst loop_states.simps) simp
    moreover from True have "loop g (degree g) s = Inr (colors s)"
      by (subst loop.simps) simp
    ultimately show ?thesis using True by simp
  next
    case False
    from next_vertex_spec[OF less.prems False] obtain v pre post where
      nv: "next_vertex (degree g) s = Inr v" and split: "uncolored s = pre @ v # post"
      by blast
    then have v: "v \<in> set (uncolored s)" by simp
    from step_result[OF less.prems nv v] obtain ns s' where r:
      "step g (degree g) s = Inr s'"
      "colors s' = colors s @ [(v, first_free (neighbor_colors (colors s) ns) 1)]"
      "uncolored s' = removeAll v (uncolored s)"
      by blast
    from step_ok[OF less.prems False] r(1) have ok': "state_ok g s'" by simp
    have "distinct (uncolored s)"
      using less.prems by (simp add: state_ok_def)
    then have len: "Suc (length (uncolored s')) = length (uncolored s)"
      using v r(3) by (simp add: distinct_remove1_removeAll[symmetric] length_remove1)
         (cases "uncolored s", auto)
    then have shorter: "length (uncolored s') < length (uncolored s)" by simp
    have eq: "loop_states g (degree g) s = s # loop_states g (degree g) s'"
      using False r(1) by (subst loop_states.simps) simp
    have eq2: "loop g (degree g) s = loop g (degree g) s'"
      using False r(1) by (subst loop.simps) simp
    from less.hyps[OF shorter ok'] have IH:
      "loop g (degree g) s' = Inr (colors (last (loop_states g (degree g) s')))"
      "uncolored (last (loop_states g (degree g) s')) = []"
      "loop_states g (degree g) s' \<noteq> []"
      "map (\<lambda>t. length (colors t)) (loop_states g (degree g) s') =
         [length (colors s') ..< length (colors s') + length (uncolored s') + 1]"
      by simp_all
    have l': "length (colors s') = Suc (length (colors s))"
      using r(2) by simp
    have "map (\<lambda>t. length (colors t)) (loop_states g (degree g) s) =
       length (colors s) # [Suc (length (colors s)) ..< Suc (length (colors s)) + length (uncolored s') + 1]"
      unfolding eq using IH(4) by (simp only: list.map l')
    also have "Suc (length (colors s)) + length (uncolored s') + 1 =
        length (colors s) + length (uncolored s) + 1"
      using len by simp
    also have "length (colors s) # [Suc (length (colors s)) ..< length (colors s) + length (uncolored s) + 1]
        = [length (colors s) ..< length (colors s) + length (uncolored s) + 1]"
      by (rule upt_conv_Cons[symmetric]) simp
    finally show ?thesis
      using IH(1-3) eq eq2 by simp
  qed
qed

section \<open>Whole runs\<close>

lemma dsatur_states_invariant:
  assumes inp: "input_ok it g"
    and init: "\<And>s. init_state it g = Inr s \<Longrightarrow> I s"
    and pres: "\<And>s s'. state_ok g s \<Longrightarrow> I s \<Longrightarrow> uncolored s \<noteq> [] \<Longrightarrow>
                   step g (degree g) s = Inr s' \<Longrightarrow> I s'"
  shows "\<forall>t\<in>set (dsatur_states it g). state_ok g t \<and> I t"
proof (cases "init_state it g")
  case (Inl e)
  then show ?thesis by (simp add: dsatur_states_def)
next
  case (Inr s0)
  then have "dsatur_states it g = loop_states g (degree g) s0"
    by (simp add: dsatur_states_def)
  with loop_states_invariant[of g I s0, OF pres init_state_ok[OF inp Inr] init[OF Inr]]
  show ?thesis by simp
qed

lemma dsatur_run:
  assumes inp: "input_ok it g" and ne: "g \<noteq> []"
  shows "\<exists>s0. init_state it g = Inr s0 \<and> state_ok g s0 \<and>
      dsatur_states it g = loop_states g (degree g) s0 \<and>
      dsatur it g = Inr (colors (last (loop_states g (degree g) s0)))"
proof -
  from init_state_spec[OF inp ne] obtain s0 where s0: "init_state it g = Inr s0"
    by blast
  have ok: "state_ok g s0"
    using init_state_ok[OF inp s0] .
  have "dsatur it g = loop g (degree g) s0"
    using s0 by (simp add: dsatur_def)
  with loop_last[OF ok] s0 ok show ?thesis
    by (simp add: dsatur_states_def)
qed

lemma keys_card: "distinct (map fst g) \<Longrightarrow> card (fst ` set g) = length g"
  using distinct_card[of "map fst g"] by simp

lemma input_ok_length: "input_ok it g \<Longrightarrow> length it = length g"
proof -
  assume a: "input_ok it g"
  then have "length it = card (set (map fst g))"
    using distinct_card[of it] by (simp add: input_ok_def)
  with a show ?thesis
    by (simp add: input_ok_def keys_card)
qed

lemma length_removeAll_distinct:
  "distinct xs \<Longrightarrow> x \<in> set xs \<Longrightarrow> Suc (length (removeAll x xs)) = length xs"
  by (induction xs) auto

text \<open>What one iteration does to a well-formed state, read off a successful \<open>step\<close>.\<close>

lemma step_cases:
  assumes ok: "state_ok g s" and ne: "uncolored s \<noteq> []" and st: "step g (degree g) s = Inr s'"
  shows "\<exists>v ns. next_vertex (degree g) s = Inr v \<and> v \<in> set (uncolored s) \<and>
      map_of g v = Some ns \<and>
      colors s' = colors s @ [(v, first_free (neighbor_colors (colors s) ns) 1)] \<and>
      uncolored s' = removeAll v (uncolored s) \<and>
      (\<forall>u. dsat s' u = (if u \<in> set ns \<and> u \<in> set (uncolored s')
                         then dsat_value g (degree g) (colors s') u else dsat s u))"
proof -
  from next_vertex_spec[OF ok ne] obtain v pre post where
    nv: "next_vertex (degree g) s = Inr v" and split: "uncolored s = pre @ v # post"
    by blast
  then have v: "v \<in> set (uncolored s)" by simp
  from step_result[OF ok nv v] st nv v show ?thesis
    by auto
qed

lemma greedy_from_append:
  "greedy_from g pre (xs @ ys) \<longleftrightarrow> greedy_from g pre xs \<and> greedy_from g (pre @ xs) ys"
  by (induction xs arbitrary: pre) auto

lemma greedy_entry:
  assumes "greedy_from g [] (pre @ (v, c) # post)"
  shows "\<exists>ns. map_of g v = Some ns \<and> c = first_free (neighbor_colors pre ns) 1"
proof -
  from assms have "greedy_from g pre ((v, c) # post)"
    by (simp add: greedy_from_append)
  then show ?thesis
    by (auto split: option.splits)
qed

lemma neighbor_colors_Nil: "neighbor_colors [] ns = []"
  by (induction ns) (simp_all add: neighbor_colors_def)

lemma first_free_Nil: "first_free [] k = k"
  by (subst first_free.simps) simp

lemma set_neighbor_colors:
  "set (neighbor_colors cs ns) = {k. \<exists>n\<in>set ns. map_of cs n = Some k}"
  by (auto simp: neighbor_colors_def List.map_filter_def intro: rev_image_eqI)

lemma length_neighbor_colors: "length (neighbor_colors cs ns) \<le> length ns"
  by (simp add: neighbor_colors_def List.map_filter_def)

lemma greedy_invariant_init:
  assumes "input_ok it g" and "init_state it g = Inr s"
  shows "greedy_from g [] (colors s)"
proof -
  have "g \<noteq> []"
    using assms(2) by (auto simp: init_state_def Let_def)
  from init_state_spec[OF assms(1) this] assms(2) obtain v ns where
    "map_of g v = Some ns" "colors s = [(v, 1)]"
    by auto
  then show ?thesis
    by (simp add: neighbor_colors_Nil first_free_Nil)
qed

lemma greedy_invariant_step:
  assumes "state_ok g s" and "greedy_from g [] (colors s)" and "uncolored s \<noteq> []"
    and "step g (degree g) s = Inr s'"
  shows "greedy_from g [] (colors s')"
proof -
  from step_cases[OF assms(1,3,4)] obtain v ns where
    "map_of g v = Some ns"
    "colors s' = colors s @ [(v, first_free (neighbor_colors (colors s) ns) 1)]"
    by blast
  with assms(2) show ?thesis
    by (simp add: greedy_from_append)
qed

lemma dsatur_result:
  assumes inp: "input_ok it g" and res: "dsatur it g = Inr cs"
  shows "g \<noteq> [] \<and> distinct (map fst cs) \<and> set (map fst cs) = set (map fst g) \<and>
         greedy_from g [] cs"
proof -
  have ne: "g \<noteq> []"
    using res by (auto simp: dsatur_def init_state_def Let_def)
  from dsatur_run[OF inp ne] obtain s0 where s0:
    "init_state it g = Inr s0" "state_ok g s0"
    "dsatur_states it g = loop_states g (degree g) s0"
    "dsatur it g = Inr (colors (last (loop_states g (degree g) s0)))"
    by blast
  let ?sts = "loop_states g (degree g) s0"
  from loop_last[OF s0(2)] have l: "uncolored (last ?sts) = []" "?sts \<noteq> []"
    by simp_all
  have "\<forall>t\<in>set ?sts. state_ok g t \<and> greedy_from g [] (colors t)"
    using greedy_invariant_step greedy_invariant_init[OF inp s0(1)]
    by (intro loop_states_invariant[OF _ s0(2)]) 
  with l(2) have "state_ok g (last ?sts)" "greedy_from g [] (colors (last ?sts))"
    by simp_all
  moreover have "cs = colors (last ?sts)"
    using res s0(4) by simp
  ultimately show ?thesis
    using ne l(1) by (simp add: state_ok_def)
qed

lemma loop_states_prefixes:
  "state_ok g s \<Longrightarrow>
     \<exists>rest. colors (last (loop_states g (degree g) s)) = colors s @ rest \<and>
       (\<forall>a v c b. rest = a @ (v, c) # b \<longrightarrow>
          (\<exists>t\<in>set (loop_states g (degree g) s).
             colors t = colors s @ a \<and> next_vertex (degree g) t = Inr v))"
proof (induction "length (uncolored s)" arbitrary: s rule: less_induct)
  case less
  show ?case
  proof (cases "uncolored s = []")
    case True
    then have "loop_states g (degree g) s = [s]"
      by (subst loop_states.simps) simp
    then show ?thesis by simp
  next
    case False
    from step_ok[OF less.prems False] obtain s' where
      s': "step g (degree g) s = Inr s'" "state_ok g s'" by blast
    from step_cases[OF less.prems False s'(1)] obtain w ns where w:
      "next_vertex (degree g) s = Inr w" "w \<in> set (uncolored s)"
      "colors s' = colors s @ [(w, first_free (neighbor_colors (colors s) ns) 1)]"
      "uncolored s' = removeAll w (uncolored s)"
      by blast
    define cw where "cw = first_free (neighbor_colors (colors s) ns) 1"
    have shorter: "length (uncolored s') < length (uncolored s)"
    proof -
      have "length (removeAll x xs) < length xs" if "x \<in> set xs" for x :: vertex and xs
        using that by (induction xs) (auto simp: less_Suc_eq_le)
      with w(2,4) show ?thesis by simp
    qed
    have eq: "loop_states g (degree g) s = s # loop_states g (degree g) s'"
      using False s'(1) by (subst loop_states.simps) simp
    have nonempty: "loop_states g (degree g) s' \<noteq> []"
      using loop_last[OF s'(2)] by simp
    from less.hyps[OF shorter s'(2)] obtain rest' where r:
      "colors (last (loop_states g (degree g) s')) = colors s' @ rest'"
      "\<forall>a v c b. rest' = a @ (v, c) # b \<longrightarrow>
          (\<exists>t\<in>set (loop_states g (degree g) s').
             colors t = colors s' @ a \<and> next_vertex (degree g) t = Inr v)"
      by blast
    have last_eq: "colors (last (loop_states g (degree g) s)) = colors s @ (w, cw) # rest'"
      using eq nonempty r(1) w(3) by (simp add: cw_def)
    have "\<exists>t\<in>set (loop_states g (degree g) s).
             colors t = colors s @ a \<and> next_vertex (degree g) t = Inr v"
      if split: "(w, cw) # rest' = a @ (v, c) # b" for a v c b
    proof (cases a)
      case Nil
      with split have "v = w" by simp
      with w(1) Nil eq show ?thesis by simp
    next
      case (Cons p a')
      with split have p: "p = (w, cw)" and "rest' = a' @ (v, c) # b"
        by simp_all
      with r(2) obtain t where "t \<in> set (loop_states g (degree g) s')"
        "colors t = colors s' @ a'" "next_vertex (degree g) t = Inr v"
        by blast
      then show ?thesis
        using eq w(3) Cons p by (auto simp: cw_def)
    qed
    with last_eq show ?thesis by blast
  qed
qed

lemma later_differs:
  assumes gr: "greedy_from g [] cs" and d: "distinct (map fst cs)"
    and split: "cs = pre @ (v, cv) # post" and u: "(u, cu) \<in> set pre"
    and nv: "map_of g v = Some nv" and adj: "u \<in> set nv"
  shows "cu \<noteq> cv"
proof -
  from greedy_entry[OF gr[unfolded split]] nv
  have cv: "cv = first_free (neighbor_colors pre nv) 1"
    by simp
  from d split have "distinct (map fst pre)"
    by simp
  then have "map_of pre u = Some cu"
    using u by (rule map_of_is_SomeI)
  with adj have "cu \<in> set (neighbor_colors pre nv)"
    by (auto simp: set_neighbor_colors)
  with first_free_notin[of "neighbor_colors pre nv" 1] cv show ?thesis
    by auto
qed

lemma two_entries:
  assumes "u \<in> fst ` set cs" and "v \<in> fst ` set cs" and "u \<noteq> v"
  shows "\<exists>a b c cu cv. cs = a @ (u, cu) # b @ (v, cv) # c \<or> cs = a @ (v, cv) # b @ (u, cu) # c"
proof -
  from assms(1) obtain cu where "(u, cu) \<in> set cs" by auto
  then obtain xs ys where cs: "cs = xs @ (u, cu) # ys"
    by (auto dest: split_list)
  from assms(2) obtain cv where "(v, cv) \<in> set cs" by auto
  with cs assms(3) have "(v, cv) \<in> set xs \<or> (v, cv) \<in> set ys"
    by auto
  then show ?thesis
  proof
    assume "(v, cv) \<in> set xs"
    then obtain a b where "xs = a @ (v, cv) # b"
      by (auto dest: split_list)
    with cs have "cs = a @ (v, cv) # b @ (u, cu) # ys" by simp
    then show ?thesis by blast
  next
    assume "(v, cv) \<in> set ys"
    then obtain b c where "ys = b @ (v, cv) # c"
      by (auto dest: split_list)
    with cs have "cs = xs @ (u, cu) # b @ (v, cv) # c" by simp
    then show ?thesis by blast
  qed
qed

lemma neighbor_colors_removeAll:
  "map_of pre v = None \<Longrightarrow> neighbor_colors pre (removeAll v ns) = neighbor_colors pre ns"
  by (induction ns) (auto simp: neighbor_colors_def split: option.splits)

lemma states_ok:
  assumes "input_ok it g" and "s \<in> set (dsatur_states it g)"
  shows "state_ok g s"
  using dsatur_states_invariant[OF assms(1), of "\<lambda>s. True"] assms(2) by simp



lemma color_at_entry:
  assumes "input_ok it g" and "dsatur it g = Inr cs" and "cs = pre @ (v, c) # post"
  shows "\<exists>ns. map_of g v = Some ns \<and> 0 < c \<and>
     (\<forall>n\<in>set ns. map_of pre n \<noteq> Some c) \<and>
     (\<forall>k. 0 < k \<and> k < c \<longrightarrow> (\<exists>n\<in>set ns. map_of pre n = Some k)) \<and>
     c \<le> length ns + 1 \<and>
     ((pre = [] \<and> py_max (getitem (degree g)) (map fst g) = Inr v) \<or>
      (\<exists>s\<in>set (dsatur_states it g). colors s = pre \<and> next_vertex (degree g) s = Inr v))"
proof -
  from dsatur_result[OF assms(1,2)] have ne: "g \<noteq> []" and gr: "greedy_from g [] cs"
    by simp_all
  from greedy_entry[OF gr[unfolded assms(3)]] obtain ns where
    ns: "map_of g v = Some ns" and c: "c = first_free (neighbor_colors pre ns) 1"
    by blast
  let ?used = "neighbor_colors pre ns"
  have pos: "0 < c"
    using first_free_ge[of 1 ?used] c by simp
  have notin: "\<forall>n\<in>set ns. map_of pre n \<noteq> Some c"
    using first_free_notin[of ?used 1] c by (auto simp: set_neighbor_colors)
  have least: "\<forall>k. 0 < k \<and> k < c \<longrightarrow> (\<exists>n\<in>set ns. map_of pre n = Some k)"
  proof (intro allI impI)
    fix k assume "0 < k \<and> k < c"
    then have "1 \<le> k" "k < first_free ?used 1"
      using c by simp_all
    then have "k \<in> set ?used"
      by (rule first_free_least)
    then show "\<exists>n\<in>set ns. map_of pre n = Some k"
      by (simp add: set_neighbor_colors)
  qed
  have "c \<le> card (set ?used) + 1"
    using first_free_bound[of ?used] c by simp
  also have "\<dots> \<le> length ?used + 1"
    by (simp add: card_length)
  also have "\<dots> \<le> length ns + 1"
    by (simp add: length_neighbor_colors)
  finally have bound: "c \<le> length ns + 1" .
  from dsatur_run[OF assms(1) ne] obtain s0 where s0:
    "init_state it g = Inr s0" "state_ok g s0"
    "dsatur_states it g = loop_states g (degree g) s0"
    "dsatur it g = Inr (colors (last (loop_states g (degree g) s0)))"
    by blast
  from init_state_spec[OF assms(1) ne] s0(1) obtain v0 where v0:
    "py_max (getitem (degree g)) (map fst g) = Inr v0" "colors s0 = [(v0, 1)]"
    by auto
  from loop_states_prefixes[OF s0(2)] obtain rest where r:
    "colors (last (loop_states g (degree g) s0)) = colors s0 @ rest"
    "\<forall>a v c b. rest = a @ (v, c) # b \<longrightarrow>
          (\<exists>t\<in>set (loop_states g (degree g) s0).
             colors t = colors s0 @ a \<and> next_vertex (degree g) t = Inr v)"
    by blast
  have cs: "pre @ (v, c) # post = (v0, 1) # rest"
    using assms(2,3) s0(4) r(1) v0(2) by simp
  have "(pre = [] \<and> py_max (getitem (degree g)) (map fst g) = Inr v) \<or>
      (\<exists>s\<in>set (dsatur_states it g). colors s = pre \<and> next_vertex (degree g) s = Inr v)"
  proof (cases pre)
    case Nil
    with cs v0(1) show ?thesis by simp
  next
    case (Cons p a)
    with cs have "p = (v0, 1)" "rest = a @ (v, c) # post"
      by simp_all
    with r(2) obtain t where "t \<in> set (loop_states g (degree g) s0)"
      "colors t = colors s0 @ a" "next_vertex (degree g) t = Inr v"
      by blast
    with Cons \<open>p = (v0, 1)\<close> v0(2) s0(3) show ?thesis
      by auto
  qed
  with ns pos notin least bound show ?thesis
    by blast
qed

section \<open>The stored saturation degree on symmetric graphs\<close>

lemma entries_of_key:
  "distinct (map fst cs) \<Longrightarrow>
     map snd (filter (\<lambda>p. fst p = n) cs) = (case map_of cs n of None \<Rightarrow> [] | Some c \<Rightarrow> [c])"
proof (induction cs)
  case Nil
  then show ?case by simp
next
  case (Cons p cs)
  show ?case
  proof (cases "fst p = n")
    case True
    with Cons.prems have "n \<notin> fst ` set cs" by auto
    then have "filter (\<lambda>p. fst p = n) cs = []"
      by (auto simp: filter_empty_conv)
    with True show ?thesis by (cases p) simp
  next
    case False
    with Cons show ?thesis by (cases p) simp
  qed
qed

lemma spec_cols_eq:
  "distinct (map fst cs) \<Longrightarrow>
     concat (map (\<lambda>n. map snd (filter (\<lambda>p. fst p = n) cs)) ns) = neighbor_colors cs ns"
  by (induction ns) (simp_all add: entries_of_key neighbor_colors_def split: option.splits)

lemma spec_DSAT_eq:
  "distinct (map fst cs) \<Longrightarrow>
     spec_DSAT cs ns =
       (if neighbor_colors cs ns = [] then length ns else set_len (neighbor_colors cs ns))"
  by (simp add: spec_DSAT_def spec_cols_eq set_len_def length_remdups_card_conv)

lemma symmetricD:
  assumes "symmetric g" and "map_of g u = Some nu" and "w \<in> set nu" and "map_of g w = Some nw"
  shows "u \<in> set nw"
proof -
  from assms(2) have "(u, nu) \<in> set g"
    by (rule map_of_SomeD)
  with assms(1,3) have "case map_of g w of None \<Rightarrow> True | Some nv \<Rightarrow> u \<in> set nv"
    unfolding symmetric_def by blast
  with assms(4) show ?thesis by simp
qed

lemma neighbor_colors_snoc:
  "w \<notin> set ns \<Longrightarrow> neighbor_colors (cs @ [(w, c)]) ns = neighbor_colors cs ns"
  by (induction ns) (auto simp: neighbor_colors_def map_add_def split: option.splits)

lemma neighbor_colors_nonempty:
  assumes "map_of cs w = Some c" and "w \<in> set ns"
  shows "neighbor_colors cs ns \<noteq> []"
proof -
  from assms have "c \<in> set (neighbor_colors cs ns)"
    by (auto simp: set_neighbor_colors)
  then show ?thesis by auto
qed

lemma dsat_value_spec:
  assumes "distinct (map fst cs)" and "map_of g u = Some nu"
  shows "dsat_value g (degree g) cs u = Some (spec_DSAT cs nu)"
  using assms by (simp add: dsat_value_def spec_DSAT_eq degree_eq)

lemma dsat_invariant_init:
  assumes inp: "input_ok it g" and sym: "symmetric g" and init: "init_state it g = Inr s"
    and u: "u \<in> set (uncolored s)"
  shows "\<exists>nu. map_of g u = Some nu \<and> dsat s u = Some (spec_DSAT (colors s) nu)"
proof -
  have ne: "g \<noteq> []"
    using init by (auto simp: init_state_def Let_def)
  from init_state_spec[OF inp ne] init obtain v ns where r:
    "map_of g v = Some ns" "colors s = [(v, 1)]" "uncolored s = removeAll v it"
    "\<forall>u. dsat s u = (if u \<in> set ns \<and> u \<in> set (uncolored s)
                         then first_value g [(v, 1)] u else degree g u)"
    by auto
  from u r(3) inp have uk: "u \<in> set (map fst g)" and uv: "u \<noteq> v"
    by (auto simp: input_ok_def)
  then obtain nu where nu: "map_of g u = Some nu"
    by (auto simp: dom_map_of_conv_image_fst[symmetric])
  have d: "distinct (map fst [(v, 1::nat)])"
    by simp
  show ?thesis
  proof (cases "u \<in> set ns")
    case True
    from symmetricD[OF sym r(1) True nu] have "v \<in> set nu" .
    then have nonempty: "neighbor_colors [(v, 1)] nu \<noteq> []"
      by (intro neighbor_colors_nonempty[of _ v 1]) simp_all
    from True u r(4) have "dsat s u = first_value g [(v, 1)] u"
      by auto
    also have "\<dots> = Some (set_len (neighbor_colors [(v, 1)] nu))"
      using nu by (simp add: first_value_def)
    also have "\<dots> = Some (spec_DSAT [(v, 1)] nu)"
      using nonempty spec_DSAT_eq[OF d, of nu] by simp
    finally show ?thesis
      using nu r(2) by simp
  next
    case False
    have "v \<notin> set nu"
    proof
      assume "v \<in> set nu"
      from symmetricD[OF sym nu this r(1)] False show False by simp
    qed
    then have "neighbor_colors ([] @ [(v, 1)]) nu = neighbor_colors [] nu"
      by (rule neighbor_colors_snoc)
    then have empty: "neighbor_colors [(v, 1)] nu = []"
      by (simp add: neighbor_colors_Nil)
    from False r(4) have "dsat s u = degree g u"
      by auto
    also have "\<dots> = Some (length nu)"
      using nu by (simp add: degree_eq)
    also have "\<dots> = Some (spec_DSAT [(v, 1)] nu)"
      using empty spec_DSAT_eq[OF d, of nu] by simp
    finally show ?thesis
      using nu r(2) by simp
  qed
qed

lemma dsat_invariant_step:
  assumes sym: "symmetric g" and ok: "state_ok g s"
    and J: "\<forall>u\<in>set (uncolored s). \<exists>nu. map_of g u = Some nu \<and>
              dsat s u = Some (spec_DSAT (colors s) nu)"
    and ne: "uncolored s \<noteq> []" and st: "step g (degree g) s = Inr s'"
  shows "\<forall>u\<in>set (uncolored s'). \<exists>nu. map_of g u = Some nu \<and>
              dsat s' u = Some (spec_DSAT (colors s') nu)"
proof
  fix u assume u': "u \<in> set (uncolored s')"
  from step_cases[OF ok ne st] obtain w ns where w:
    "map_of g w = Some ns"
    "colors s' = colors s @ [(w, first_free (neighbor_colors (colors s) ns) 1)]"
    "uncolored s' = removeAll w (uncolored s)"
    "\<forall>u. dsat s' u = (if u \<in> set ns \<and> u \<in> set (uncolored s')
                         then dsat_value g (degree g) (colors s') u else dsat s u)"
    by blast
  from step_ok[OF ok ne] st have ok': "state_ok g s'"
    by simp
  then have d': "distinct (map fst (colors s'))"
    by (simp add: state_ok_def)
  from u' w(3) have u: "u \<in> set (uncolored s)" and uw: "u \<noteq> w"
    by auto
  from J u obtain nu where nu: "map_of g u = Some nu"
    "dsat s u = Some (spec_DSAT (colors s) nu)"
    by blast
  show "\<exists>nu. map_of g u = Some nu \<and> dsat s' u = Some (spec_DSAT (colors s') nu)"
  proof (cases "u \<in> set ns")
    case True
    with u' w(4) have "dsat s' u = dsat_value g (degree g) (colors s') u"
      by auto
    with dsat_value_spec[OF d' nu(1)] nu(1) show ?thesis
      by simp
  next
    case False
    have "w \<notin> set nu"
    proof
      assume "w \<in> set nu"
      from symmetricD[OF sym nu(1) this w(1)] False show False by simp
    qed
    then have same: "neighbor_colors (colors s') nu = neighbor_colors (colors s) nu"
      unfolding w(2) by (rule neighbor_colors_snoc)
    from ok have d: "distinct (map fst (colors s))"
      by (simp add: state_ok_def)
    have "spec_DSAT (colors s') nu = spec_DSAT (colors s) nu"
      by (simp add: spec_DSAT_eq[OF d] spec_DSAT_eq[OF d'] same)
    moreover from False w(4) have "dsat s' u = dsat s u"
      by auto
    ultimately show ?thesis
      using nu by simp
  qed
qed

section \<open>What holds where the adjacency is symmetric\<close>

text \<open>
  Two vertices that list each other never share a colour: the one coloured later sees the
  colour of the other among its used colours.
\<close>

lemma proper_on_mutual_edges:
  assumes "input_ok it g" and "dsatur it g = Inr cs"
    and "map_of g u = Some nu" and "map_of g v = Some nv"
    and "v \<in> set nu" and "u \<in> set nv" and "u \<noteq> v"
  shows "\<exists>cu cv. map_of cs u = Some cu \<and> map_of cs v = Some cv \<and> cu \<noteq> cv"
proof -
  from dsatur_result[OF assms(1,2)] have
    d: "distinct (map fst cs)" and k: "set (map fst cs) = set (map fst g)"
    and gr: "greedy_from g [] cs"
    by simp_all
  from assms(3,4) have "u \<in> set (map fst g)" "v \<in> set (map fst g)"
    by (auto dest!: map_of_SomeD intro: rev_image_eqI)
  with k have "u \<in> fst ` set cs" "v \<in> fst ` set cs"
    by auto
  from two_entries[OF this assms(7)] obtain a b c cu cv where
    "cs = a @ (u, cu) # b @ (v, cv) # c \<or> cs = a @ (v, cv) # b @ (u, cu) # c"
    by blast
  then show ?thesis
  proof
    assume cs: "cs = a @ (u, cu) # b @ (v, cv) # c"
    then have "cs = (a @ (u, cu) # b) @ (v, cv) # c" by simp
    from later_differs[OF gr d this _ assms(4,6), of cu] have "cu \<noteq> cv" by simp
    moreover from cs have "(u, cu) \<in> set cs" "(v, cv) \<in> set cs"
      by simp_all
    then have "map_of cs u = Some cu" "map_of cs v = Some cv"
      by (simp_all only: map_of_is_SomeI[OF d])
    ultimately show ?thesis by blast
  next
    assume cs: "cs = a @ (v, cv) # b @ (u, cu) # c"
    then have "cs = (a @ (v, cv) # b) @ (u, cu) # c" by simp
    from later_differs[OF gr d this _ assms(3,5), of cv] have "cv \<noteq> cu" by simp
    moreover from cs have "(u, cu) \<in> set cs" "(v, cv) \<in> set cs"
      by simp_all
    then have "map_of cs u = Some cu" "map_of cs v = Some cv"
      by (simp_all only: map_of_is_SomeI[OF d])
    ultimately show ?thesis by blast
  qed
qed

text \<open>
  On a graph with symmetric adjacency the stored \<open>dsat\<close> of every uncoloured vertex is, at
  every loop test, the saturation degree of the specification.
\<close>

lemma stored_dsat_on_symmetric:
  assumes "input_ok it g" and "symmetric g"
    and "s \<in> set (dsatur_states it g)" and "v \<in> set (uncolored s)"
  shows "\<exists>ns. map_of g v = Some ns \<and> dsat s v = Some (spec_DSAT (colors s) ns)"
proof -
  let ?J = "\<lambda>s. \<forall>u\<in>set (uncolored s). \<exists>nu. map_of g u = Some nu \<and>
              dsat s u = Some (spec_DSAT (colors s) nu)"
  have init: "?J t" if "init_state it g = Inr t" for t
    using dsat_invariant_init[OF assms(1,2) that] by blast
  have pres: "?J t'"
    if "state_ok g t" "?J t" "uncolored t \<noteq> []" "step g (degree g) t = Inr t'" for t t'
    using dsat_invariant_step[OF assms(2) that] .
  from dsatur_states_invariant[OF assms(1), of ?J] init pres assms(3)
  have "?J s"
    by blast
  with assms(4) show ?thesis
    by blast
qed

section \<open>Runs that break their ties alike\<close>

lemma takeWhile_upto:
  "set (takeWhile (\<lambda>x. x \<noteq> w) (pre @ w # post)) \<subseteq> set pre"
  by (induction pre) auto

lemma takeWhile_filter_mem:
  "v \<in> set (takeWhile (\<lambda>x. x \<noteq> u) ys) \<Longrightarrow> P v \<Longrightarrow>
     v \<in> set (takeWhile (\<lambda>x. x \<noteq> u) (filter P ys))"
  by (induction ys) (auto split: if_splits)

lemma removeAll_filter_mem:
  "removeAll v (filter (\<lambda>x. x \<in> A) ys) = filter (\<lambda>x. x \<in> A - {v}) ys"
  by (induction ys) auto

lemma py_max_eqI:
  assumes defd: "\<forall>x\<in>set ys. \<exists>k. f x = Inr k"
    and v: "v \<in> set ys" and kv: "f v = Inr kv"
    and le: "\<forall>u\<in>set ys. \<forall>ku. f u = Inr ku \<longrightarrow> ku \<le> kv"
    and tie: "\<forall>u\<in>set ys. u \<noteq> v \<and> f u = f v \<longrightarrow> v \<in> set (takeWhile (\<lambda>x. x \<noteq> u) ys)"
  shows "py_max f ys = Inr v"
proof -
  from v have "ys \<noteq> []" by auto
  from py_max_spec[OF this defd] obtain w kw pre post where w:
    "py_max f ys = Inr w" "ys = pre @ w # post" "f w = Inr kw"
    "\<forall>u\<in>set pre. \<forall>ku. f u = Inr ku \<longrightarrow> ku < kw"
    "\<forall>u\<in>set post. \<forall>ku. f u = Inr ku \<longrightarrow> ku \<le> kw"
    by blast
  from w(2,3) le have kw_le: "kw \<le> kv" by auto
  have notpre: "v \<notin> set pre"
  proof
    assume "v \<in> set pre"
    with w(4) kv have "kv < kw" by blast
    with kw_le show False by simp
  qed
  have "w = v"
  proof (rule ccontr)
    assume neq: "w \<noteq> v"
    with v w(2) notpre have "v \<in> set post" by auto
    with w(5) kv have "kv \<le> kw" by blast
    with kw_le have "kw = kv" by simp
    with w(3) kv have "f w = f v" by simp
    moreover from w(2) have "w \<in> set ys" by simp
    ultimately have "v \<in> set (takeWhile (\<lambda>x. x \<noteq> w) ys)"
      using tie neq by blast
    with takeWhile_upto[of w pre post] w(2) have "v \<in> set pre" by auto
    with notpre show False by simp
  qed
  with w(1) show ?thesis by simp
qed

lemma py_max_other_order:
  assumes defd: "\<forall>x\<in>set xs. \<exists>k. f x = Inr k" and ne: "xs \<noteq> []"
    and same: "set ys = set xs"
    and tie: "first_among_ties f xs zs"
    and sub: "\<And>u v. v \<in> set (takeWhile (\<lambda>x. x \<noteq> u) zs) \<Longrightarrow> v \<in> set xs \<Longrightarrow>
                   v \<in> set (takeWhile (\<lambda>x. x \<noteq> u) ys)"
  shows "py_max f ys = py_max f xs"
proof -
  from py_max_spec[OF ne defd] obtain v kv pre post where r:
    "py_max f xs = Inr v" "xs = pre @ v # post" "f v = Inr kv"
    "\<forall>u\<in>set pre. \<forall>ku. f u = Inr ku \<longrightarrow> ku < kv"
    "\<forall>u\<in>set post. \<forall>ku. f u = Inr ku \<longrightarrow> ku \<le> kv"
    by blast
  from r(2) have vin: "v \<in> set xs" by simp
  have le: "\<forall>u\<in>set ys. \<forall>ku. f u = Inr ku \<longrightarrow> ku \<le> kv"
  proof (intro ballI allI impI)
    fix u ku assume "u \<in> set ys" "f u = Inr ku"
    with same r(2) have "u \<in> set pre \<or> u = v \<or> u \<in> set post" by auto
    with r(3,4,5) \<open>f u = Inr ku\<close> show "ku \<le> kv"
      by (auto simp: less_imp_le)
  qed
  have t: "\<forall>u\<in>set ys. u \<noteq> v \<and> f u = f v \<longrightarrow> v \<in> set (takeWhile (\<lambda>x. x \<noteq> u) ys)"
  proof (intro ballI impI)
    fix u assume u: "u \<in> set ys" "u \<noteq> v \<and> f u = f v"
    from tie r(1) u same have "v \<in> set (takeWhile (\<lambda>x. x \<noteq> u) zs)"
      by (auto simp: first_among_ties_def)
    from sub[OF this vin] show "v \<in> set (takeWhile (\<lambda>x. x \<noteq> u) ys)" .
  qed
  from defd same have "\<forall>x\<in>set ys. \<exists>k. f x = Inr k" by simp
  from py_max_eqI[OF this _ r(3) le t] vin same r(1) show ?thesis
    by simp
qed

lemma degree_cong: "map_of g1 = map_of g2 \<Longrightarrow> degree g1 = degree g2"
  by (rule ext) (simp add: degree_eq)

lemma dsat_value_cong: "map_of g1 = map_of g2 \<Longrightarrow> dsat_value g1 deg cs u = dsat_value g2 deg cs u"
  by (simp add: dsat_value_def)

lemma first_value_cong: "map_of g1 = map_of g2 \<Longrightarrow> first_value g1 cs u = first_value g2 cs u"
  by (simp add: first_value_def)

lemma keys_cong: "map_of g1 = map_of g2 \<Longrightarrow> set (map fst g1) = set (map fst g2)"
  using dom_map_of_conv_image_fst[of g1] dom_map_of_conv_image_fst[of g2] by simp

lemma loop_simulation:
  assumes m: "map_of g1 = map_of g2"
  shows "state_ok g1 s1 \<Longrightarrow> state_ok g2 s2 \<Longrightarrow> colors s1 = colors s2 \<Longrightarrow> dsat s1 = dsat s2 \<Longrightarrow>
     uncolored s2 = filter (\<lambda>x. x \<in> set (uncolored s1)) it2 \<Longrightarrow>
     set (uncolored s1) \<subseteq> set it2 \<Longrightarrow>
     (\<forall>s\<in>set (loop_states g1 (degree g1) s1).
        first_among_ties (priority (dsat s) (degree g1)) (uncolored s) it2) \<Longrightarrow>
     loop g1 (degree g1) s1 = loop g2 (degree g2) s2"
proof (induction "length (uncolored s1)" arbitrary: s1 s2 rule: less_induct)
  case less
  note ok1 = less.prems(1) and ok2 = less.prems(2) and cs = less.prems(3)
    and ds = less.prems(4) and unc = less.prems(5) and sub = less.prems(6)
    and ties = less.prems(7)
  have deg: "degree g1 = degree g2"
    using m by (rule degree_cong)
  have sets: "set (uncolored s2) = set (uncolored s1)"
    using unc sub by auto
  show ?case
  proof (cases "uncolored s1 = []")
    case True
    with sets have "uncolored s2 = []" by simp
    then have "loop g2 (degree g2) s2 = Inr (colors s2)"
      by (subst loop.simps) simp
    moreover from True have "loop g1 (degree g1) s1 = Inr (colors s1)"
      by (subst loop.simps) simp
    ultimately show ?thesis
      using cs by simp
  next
    case False
    with sets have ne2: "uncolored s2 \<noteq> []" by auto
    let ?f = "priority (dsat s1) (degree g1)"
    have head: "loop_states g1 (degree g1) s1 \<noteq> [] \<and> hd (loop_states g1 (degree g1) s1) = s1"
      by (subst loop_states.simps, subst (2) loop_states.simps) (simp split: sum.splits)
    then have "s1 \<in> set (loop_states g1 (degree g1) s1)"
      using hd_in_set by metis
    with ties have tie1: "first_among_ties ?f (uncolored s1) it2"
      by blast
    have defd: "\<forall>x\<in>set (uncolored s1). \<exists>k. ?f x = Inr k"
      using priority_defined[OF ok1] by blast
    have "py_max ?f (uncolored s2) = py_max ?f (uncolored s1)"
    proof (rule py_max_other_order[OF defd False sets tie1])
      fix u v
      assume "v \<in> set (takeWhile (\<lambda>x. x \<noteq> u) it2)" "v \<in> set (uncolored s1)"
      then show "v \<in> set (takeWhile (\<lambda>x. x \<noteq> u) (uncolored s2))"
        unfolding unc by (rule takeWhile_filter_mem)
    qed
    then have nveq: "next_vertex (degree g2) s2 = next_vertex (degree g1) s1"
      by (simp add: next_vertex_def ds deg)
    from next_vertex_spec[OF ok1 False] obtain v pre post where
      nv1: "next_vertex (degree g1) s1 = Inr v" and split: "uncolored s1 = pre @ v # post"
      by blast
    then have v1: "v \<in> set (uncolored s1)" by simp
    with sets have v2: "v \<in> set (uncolored s2)" by simp
    from nveq nv1 have nv2: "next_vertex (degree g2) s2 = Inr v" by simp
    from step_result[OF ok1 nv1 v1] obtain ns1 t1 where r1:
      "map_of g1 v = Some ns1" "step g1 (degree g1) s1 = Inr t1"
      "colors t1 = colors s1 @ [(v, first_free (neighbor_colors (colors s1) ns1) 1)]"
      "uncolored t1 = removeAll v (uncolored s1)"
      "\<forall>u. dsat t1 u = (if u \<in> set ns1 \<and> u \<in> set (uncolored t1)
                         then dsat_value g1 (degree g1) (colors t1) u else dsat s1 u)"
      by blast
    from step_result[OF ok2 nv2 v2] obtain ns2 t2 where r2:
      "map_of g2 v = Some ns2" "step g2 (degree g2) s2 = Inr t2"
      "colors t2 = colors s2 @ [(v, first_free (neighbor_colors (colors s2) ns2) 1)]"
      "uncolored t2 = removeAll v (uncolored s2)"
      "\<forall>u. dsat t2 u = (if u \<in> set ns2 \<and> u \<in> set (uncolored t2)
                         then dsat_value g2 (degree g2) (colors t2) u else dsat s2 u)"
      by blast
    from r1(1) r2(1) m have ns: "ns2 = ns1" by simp
    have cs': "colors t1 = colors t2"
      using r1(3) r2(3) cs ns by simp
    have sets': "set (uncolored t2) = set (uncolored t1)"
      using r1(4) r2(4) sets by simp
    have ds': "dsat t1 = dsat t2"
    proof (rule ext)
      fix u
      show "dsat t1 u = dsat t2 u"
        using r1(5) r2(5) ns cs' sets' ds deg dsat_value_cong[OF m] by simp
    qed
    have unc': "uncolored t2 = filter (\<lambda>x. x \<in> set (uncolored t1)) it2"
      using r1(4) r2(4) unc by (simp add: removeAll_filter_mem)
    have sub': "set (uncolored t1) \<subseteq> set it2"
      using r1(4) sub by auto
    from step_ok[OF ok1 False] r1(2) have ok1': "state_ok g1 t1" by simp
    from step_ok[OF ok2 ne2] r2(2) have ok2': "state_ok g2 t2" by simp
    have shorter: "length (uncolored t1) < length (uncolored s1)"
    proof -
      have "length (removeAll x xs) < length xs" if "x \<in> set xs" for x :: vertex and xs
        using that by (induction xs) (auto simp: less_Suc_eq_le)
      with v1 r1(4) show ?thesis by simp
    qed
    have eq: "loop_states g1 (degree g1) s1 = s1 # loop_states g1 (degree g1) t1"
      using False r1(2) by (subst loop_states.simps) simp
    with ties have ties': "\<forall>s\<in>set (loop_states g1 (degree g1) t1).
        first_among_ties (priority (dsat s) (degree g1)) (uncolored s) it2"
      by simp
    from less.hyps[OF shorter ok1' ok2' cs' ds' unc' sub' ties']
    have "loop g1 (degree g1) t1 = loop g2 (degree g2) t2" .
    moreover have "loop g1 (degree g1) s1 = loop g1 (degree g1) t1"
      using False r1(2) by (subst loop.simps) simp
    moreover have "loop g2 (degree g2) s2 = loop g2 (degree g2) t2"
      using ne2 r2(2) by (subst loop.simps) simp
    ultimately show ?thesis by simp
  qed
qed

text \<open>
  The orders of a run resolve its own ties as it does: the vertex \<open>max\<close> picks is the
  first of the tied ones in the set as it is left, hence in the set as it was built.
\<close>

lemma first_among_ties_self:
  assumes "\<forall>x\<in>set xs. \<exists>k. f x = Inr k"
  shows "first_among_ties f xs xs"
proof (cases "xs = []")
  case True
  then show ?thesis by (simp add: first_among_ties_def)
next
  case False
  from py_max_spec[OF False assms] obtain v kv pre post where r:
    "py_max f xs = Inr v" "xs = pre @ v # post" "f v = Inr kv"
    "\<forall>u\<in>set pre. \<forall>ku. f u = Inr ku \<longrightarrow> ku < kv"
    by blast
  have "v \<in> set (takeWhile (\<lambda>x. x \<noteq> u) xs)" if u: "u \<noteq> v" "f u = f v" for u
  proof -
    have "u \<notin> set pre"
    proof
      assume "u \<in> set pre"
      with r(3,4) u(2) have "kv < kv" by auto
      then show False by simp
    qed
    then have "takeWhile (\<lambda>x. x \<noteq> u) (pre @ v # post) = pre @ takeWhile (\<lambda>x. x \<noteq> u) (v # post)"
      by (intro takeWhile_append2) auto
    with u(1) r(2) show ?thesis by simp
  qed
  with r(1) show ?thesis
    by (simp add: first_among_ties_def)
qed

lemma takeWhile_filter_back:
  "P u \<Longrightarrow> v \<in> set (takeWhile (\<lambda>x. x \<noteq> u) (filter P ys)) \<Longrightarrow>
     v \<in> set (takeWhile (\<lambda>x. x \<noteq> u) ys)"
  by (induction ys) (auto split: if_splits)

lemma states_sublist:
  assumes "input_ok it g" and "s \<in> set (dsatur_states it g)"
  shows "uncolored s = filter (\<lambda>x. x \<in> set (uncolored s)) it"
proof -
  let ?I = "\<lambda>s. uncolored s = filter (\<lambda>x. x \<in> set (uncolored s)) it"
  have init: "?I t" if "init_state it g = Inr t" for t
  proof -
    have "g \<noteq> []"
      using that by (auto simp: init_state_def Let_def)
    from init_state_spec[OF assms(1) this] that obtain v where v: "uncolored t = removeAll v it"
      by auto
    have "filter (\<lambda>x. x \<in> set (removeAll v it)) it = filter (\<lambda>x. x \<noteq> v) it"
      by (intro filter_cong) auto
    also have "\<dots> = removeAll v it"
      by (induction it) auto
    finally have "removeAll v it = filter (\<lambda>x. x \<in> set (removeAll v it)) it"
      by simp
    then show ?thesis
      unfolding v .
  qed
  have pres: "?I t'"
    if "state_ok g t" "?I t" "uncolored t \<noteq> []" "step g (degree g) t = Inr t'" for t t'
  proof -
    from step_cases[OF that(1,3,4)] obtain v where v: "uncolored t' = removeAll v (uncolored t)"
      by blast
    have "removeAll v (uncolored t) = removeAll v (filter (\<lambda>x. x \<in> set (uncolored t)) it)"
      using that(2) by simp
    also have "\<dots> = filter (\<lambda>x. x \<in> set (uncolored t) - {v}) it"
      by (rule removeAll_filter_mem)
    also have "\<dots> = filter (\<lambda>x. x \<in> set (removeAll v (uncolored t))) it"
      by (intro filter_cong) auto
    finally show ?thesis
      unfolding v .
  qed
  from dsatur_states_invariant[OF assms(1), of ?I] init pres assms(2) show ?thesis
    by blast
qed

lemma same_tie_breaks_refl:
  assumes "input_ok it g"
  shows "same_tie_breaks it g it g"
proof -
  have "\<forall>x\<in>set (map fst g). \<exists>k. getitem (degree g) x = Inr k"
    using dom_degree[of g] by (auto simp: getitem_Inr)
  then have first: "first_among_ties (getitem (degree g)) (map fst g) (map fst g)"
    by (rule first_among_ties_self)
  have "first_among_ties (priority (dsat s) (degree g)) (uncolored s) it"
    if s: "s \<in> set (dsatur_states it g)" for s
  proof -
    let ?f = "priority (dsat s) (degree g)"
    have ok: "state_ok g s"
      using states_ok[OF assms s] .
    have "\<forall>x\<in>set (uncolored s). \<exists>k. ?f x = Inr k"
      using priority_defined[OF ok] by blast
    then have self: "first_among_ties ?f (uncolored s) (uncolored s)"
      by (rule first_among_ties_self)
    have sub: "uncolored s = filter (\<lambda>x. x \<in> set (uncolored s)) it"
      using states_sublist[OF assms s] .
    show ?thesis
    proof (cases "py_max ?f (uncolored s)")
      case (Inl e)
      then show ?thesis by (simp add: first_among_ties_def)
    next
      case (Inr v)
      have "v \<in> set (takeWhile (\<lambda>x. x \<noteq> u) it)"
        if u: "u \<in> set (uncolored s)" "u \<noteq> v" "?f u = ?f v" for u
      proof -
        from self Inr u have "v \<in> set (takeWhile (\<lambda>x. x \<noteq> u) (uncolored s))"
          by (auto simp: first_among_ties_def)
        then have "v \<in> set (takeWhile (\<lambda>x. x \<noteq> u)
            (filter (\<lambda>x. x \<in> set (uncolored s)) it))"
          using sub by simp
        with u(1) show ?thesis
          by (rule takeWhile_filter_back[of "\<lambda>x. x \<in> set (uncolored s)"])
      qed
      with Inr show ?thesis
        by (simp add: first_among_ties_def)
    qed
  qed
  with first show ?thesis
    by (simp add: same_tie_breaks_def)
qed

section \<open>The claims\<close>

text \<open>
  Claim C1. For every accepted graph and every edge \<open>(u, v)\<close> of the symmetrised graph
  (\<open>u\<close> is in the list of \<open>v\<close> or \<open>v\<close> in the list of \<open>u\<close>), the two ends must receive
  different colours. The code does not achieve it: it reads only the list of the vertex
  it is colouring. In \<open>{1: [2], 2: []}\<close>, which the input form builds when 2 is selected
  for vertex 1 and nothing for vertex 2, and which is drawn with the edge 1 - 2, vertex 1
  is coloured first with 1, vertex 2 sees no used colour, and both ends get colour 1.
\<close>

theorem asymmetric_edge_same_color:
  "dsatur [1, 2] [(1, [2]), (2, [])] = Inr [(1, 1), (2, 1)]"
  by code_simp

text \<open>
  Claim C2. The returned dictionary lists the vertices in the order of their assignment,
  so for a vertex \<open>v\<close> with neighbour list \<open>ns\<close> the entries \<open>pre\<close> before the entry
  \<open>(v, c)\<close> are the assignment at the moment \<open>v\<close> is coloured. The colour \<open>c\<close> is
  positive, no neighbour of \<open>v\<close> has it in \<open>pre\<close>, every smaller positive colour is the
  colour in \<open>pre\<close> of some neighbour of \<open>v\<close>, and \<open>c\<close> is at most the degree of \<open>v\<close>
  plus 1. The moment is indeed that of the run: either \<open>v\<close> is the first vertex, chosen
  by \<open>max\<close> over the keys, or some loop test of the run has \<open>colors = pre\<close> and
  selects \<open>v\<close>.
\<close>

theorem dsatur_smallest_free_color:
  assumes "input_ok it g" and "dsatur it g = Inr cs" and "map_of g v = Some ns"
  shows "\<exists>pre c post. cs = pre @ (v, c) # post \<and> map_of cs v = Some c \<and> 0 < c \<and>
     (\<forall>n\<in>set ns. map_of pre n \<noteq> Some c) \<and>
     (\<forall>k. 0 < k \<and> k < c \<longrightarrow> (\<exists>n\<in>set ns. map_of pre n = Some k)) \<and>
     c \<le> length ns + 1 \<and>
     ((pre = [] \<and> py_max (getitem (degree g)) (map fst g) = Inr v) \<or>
      (\<exists>s\<in>set (dsatur_states it g). colors s = pre \<and> next_vertex (degree g) s = Inr v))"
proof -
  from dsatur_result[OF assms(1,2)] have
    d: "distinct (map fst cs)" and k: "set (map fst cs) = set (map fst g)"
    by simp_all
  from assms(3) have "v \<in> set (map fst g)"
    by (auto dest!: map_of_SomeD intro: rev_image_eqI)
  with k have "v \<in> fst ` set cs"
    by simp
  then obtain c where in_cs: "(v, c) \<in> set cs"
    by auto
  then obtain pre post where cs: "cs = pre @ (v, c) # post"
    by (auto dest: split_list)
  have m: "map_of cs v = Some c"
    using d in_cs by (rule map_of_is_SomeI)
  from color_at_entry[OF assms(1,2) cs] assms(3) have
    "0 < c \<and> (\<forall>n\<in>set ns. map_of pre n \<noteq> Some c) \<and>
     (\<forall>k. 0 < k \<and> k < c \<longrightarrow> (\<exists>n\<in>set ns. map_of pre n = Some k)) \<and>
     c \<le> length ns + 1 \<and>
     ((pre = [] \<and> py_max (getitem (degree g)) (map fst g) = Inr v) \<or>
      (\<exists>s\<in>set (dsatur_states it g). colors s = pre \<and> next_vertex (degree g) s = Inr v))"
    by auto
  with cs m show ?thesis
    by blast
qed

text \<open>On the path 1 - 2 - 3, for vertex 1, coloured second with colour 2.\<close>

theorem dsatur_smallest_free_color_witness:
  "input_ok [1, 2, 3] [(1, [2]), (2, [1, 3]), (3, [2])] \<and>
   dsatur [1, 2, 3] [(1, [2]), (2, [1, 3]), (3, [2])] = Inr [(2, 1), (1, 2), (3, 2)] \<and>
   map_of [(1, [2]), (2, [1, 3]), (3, [2::vertex])] (1::vertex) = Some [2] \<and>
   (\<exists>pre c post. [(2::vertex, 1::nat), (1, 2), (3, 2)] = pre @ (1, c) # post \<and>
     map_of [(2::vertex, 1::nat), (1, 2), (3, 2)] 1 = Some c \<and> 0 < c \<and>
     (\<forall>n\<in>set [2::vertex]. map_of pre n \<noteq> Some c) \<and>
     (\<forall>k. 0 < k \<and> k < c \<longrightarrow> (\<exists>n\<in>set [2::vertex]. map_of pre n = Some k)) \<and>
     c \<le> length [2::vertex] + 1 \<and>
     ((pre = [] \<and>
       py_max (getitem (degree [(1, [2]), (2, [1, 3]), (3, [2])])) (map fst [(1, [2]), (2, [1, 3]), (3, [2::vertex])])
         = Inr 1) \<or>
      (\<exists>s\<in>set (dsatur_states [1, 2, 3] [(1, [2]), (2, [1, 3]), (3, [2])]).
          colors s = pre \<and>
          next_vertex (degree [(1, [2]), (2, [1, 3]), (3, [2])]) s = Inr 1)))"
proof -
  have h1: "input_ok [1, 2, 3] [(1, [2]), (2, [1, 3]), (3, [2])]"
    by code_simp
  have h2: "dsatur [1, 2, 3] [(1, [2]), (2, [1, 3]), (3, [2])] = Inr [(2, 1), (1, 2), (3, 2)]"
    by code_simp
  have h3: "map_of [(1, [2]), (2, [1, 3]), (3, [2::vertex])] (1::vertex) = Some [2]"
    by simp
  from dsatur_smallest_free_color[OF h1 h2 h3] h1 h2 h3 show ?thesis
    by blast
qed




text \<open>
  Claim C4, as amended. \<open>dsatur\<close> fails exactly on the graph with no vertex, and the
  failure is the \<open>ValueError\<close> of \<open>max\<close> on an empty sequence. Nothing is validated:
  a graph whose lists reference identifiers that are not vertices, or contain the vertex
  itself, is accepted like any other non-empty graph, and every vertex is coloured.
\<close>

theorem dsatur_fails_only_on_empty:
  assumes "input_ok it g"
  shows "(dsatur it g = Inl e \<longleftrightarrow> g = [] \<and> e = ValueError) \<and>
     (g \<noteq> [] \<longrightarrow> (\<exists>cs. dsatur it g = Inr cs \<and> set (map fst cs) = set (map fst g)))"
proof (cases "g = []")
  case True
  then show ?thesis
    by (auto simp: dsatur_def init_state_def Let_def)
next
  case False
  from dsatur_run[OF assms False] obtain cs where cs: "dsatur it g = Inr cs"
    by blast
  from dsatur_result[OF assms cs] have "set (map fst cs) = set (map fst g)"
    by simp
  with cs False show ?thesis
    by simp
qed

text \<open>On the empty graph, and on a one-vertex graph with a self-loop and a dangling reference.\<close>

theorem dsatur_fails_only_on_empty_witness:
  "input_ok [] [] \<and>
   (dsatur [] [] = Inl ValueError \<longleftrightarrow> ([] :: graph) = [] \<and> ValueError = ValueError) \<and>
   input_ok [1] [(1, [1, 7])] \<and>
   (dsatur [1] [(1, [1, 7])] = Inl (KeyError 7) \<longleftrightarrow>
      [(1, [1, 7])] = ([] :: graph) \<and> KeyError 7 = ValueError) \<and>
   [(1, [1, 7])] \<noteq> ([] :: graph) \<and>
   (\<exists>cs. dsatur [1] [(1, [1, 7])] = Inr cs \<and>
         set (map fst cs) = set (map fst ([(1, [1, 7])] :: graph)))"
proof -
  have h1: "input_ok [] []"
    by code_simp
  have h2: "input_ok [1] [(1, [1, 7])]"
    by code_simp
  have h3: "[(1, [1, 7])] \<noteq> ([] :: graph)"
    by simp
  from dsatur_fails_only_on_empty[OF h1, of ValueError]
    dsatur_fails_only_on_empty[OF h2, of "KeyError 7"] h1 h2 h3
  show ?thesis
    by blast
qed

text \<open>
  Claim C4 as stated fails: in \<open>{1: [1, 2, 7], 2: [1]}\<close> vertex 1 lists itself and the
  identifier 7, which is not a vertex; \<open>dsatur\<close> raises nothing and returns
  \<open>{1: 1, 2: 2}\<close>.
\<close>

theorem invalid_adjacency_accepted:
  "dsatur [1, 2] [(1, [1, 2, 7]), (2, [1])] = Inr [(1, 1), (2, 2)]"
  by code_simp

text \<open>
  Claim C5. On every non-empty graph (a dictionary, with \<open>it\<close> enumerating the set of its
  keys), whatever its neighbour lists reference, \<open>dsatur\<close> returns an assignment. Its
  keys are pairwise distinct and are exactly the vertices of the graph, so it has
  \<open>|V|\<close> entries and every vertex is coloured exactly once. The loop test is evaluated
  \<open>|V|\<close> times, and the \<open>k\<close>-th evaluation sees exactly \<open>k\<close> coloured vertices:
  one assignment before the loop and one in each of the \<open>|V| - 1\<close> iterations.
\<close>

theorem dsatur_covers:
  assumes "input_ok it g" and "g \<noteq> []"
  shows "\<exists>cs. dsatur it g = Inr cs \<and> distinct (map fst cs) \<and>
      set (map fst cs) = set (map fst g) \<and> length cs = length g \<and>
      map (\<lambda>s. length (colors s)) (dsatur_states it g) = [1 ..< length g + 1]"
proof -
  from dsatur_run[OF assms] obtain s0 where s0:
    "init_state it g = Inr s0" "state_ok g s0"
    "dsatur_states it g = loop_states g (degree g) s0"
    "dsatur it g = Inr (colors (last (loop_states g (degree g) s0)))"
    by blast
  let ?sts = "loop_states g (degree g) s0"
  from loop_last[OF s0(2)] have l:
    "uncolored (last ?sts) = []" "?sts \<noteq> []"
    "map (\<lambda>t. length (colors t)) ?sts =
       [length (colors s0) ..< length (colors s0) + length (uncolored s0) + 1]"
    by simp_all
  have "\<forall>t\<in>set ?sts. state_ok g t \<and> True"
    by (rule loop_states_invariant[OF _ s0(2)]) simp_all
  with l(2) have okl: "state_ok g (last ?sts)"
    by simp
  let ?cs = "colors (last ?sts)"
  have d: "distinct (map fst ?cs)" and k: "set (map fst ?cs) = set (map fst g)"
    using okl l(1) by (simp_all add: state_ok_def)
  have "length ?cs = length (map fst ?cs)"
    by simp
  also have "\<dots> = card (set (map fst g))"
    using d k by (metis distinct_card)
  also have "\<dots> = length g"
    using assms(1) by (simp add: input_ok_def keys_card)
  finally have len: "length ?cs = length g" .
  from init_state_spec[OF assms] s0(1) obtain v ns where v:
    "colors s0 = [(v, 1)]" "uncolored s0 = removeAll v it" "map_of g v = Some ns"
    by auto
  from v(3) have "v \<in> set (map fst g)"
    by (auto dest: map_of_SomeD intro: rev_image_eqI)
  with assms(1) have "v \<in> set it" and "distinct it"
    by (simp_all add: input_ok_def)
  then have "Suc (length (uncolored s0)) = length g"
    using v(2) input_ok_length[OF assms(1)] by (simp add: length_removeAll_distinct)
  then have e: "1 + length (uncolored s0) + 1 = length g + 1"
    by simp
  have lc: "length (colors s0) = 1"
    using v(1) by simp
  from l(3) have "map (\<lambda>t. length (colors t)) ?sts = [1 ..< length g + 1]"
    by (simp only: lc e)
  with s0(3,4) d k len show ?thesis
    by simp
qed

text \<open>The same on a graph with a dangling reference and a self-loop.\<close>

theorem dsatur_covers_witness:
  "input_ok [1, 2, 3] [(1, [2]), (2, [1, 3, 9]), (3, [3])] \<and>
   (\<exists>cs. dsatur [1, 2, 3] [(1, [2]), (2, [1, 3, 9]), (3, [3])] = Inr cs \<and> distinct (map fst cs) \<and>
      set (map fst cs) = set (map fst [(1, [2]), (2, [1, 3, 9]), (3, [3::int])]) \<and>
      length cs = length [(1::int, [2::int]), (2, [1, 3, 9]), (3, [3])] \<and>
      map (\<lambda>s. length (colors s)) (dsatur_states [1, 2, 3] [(1, [2]), (2, [1, 3, 9]), (3, [3])])
        = [1 ..< length [(1::int, [2::int]), (2, [1, 3, 9]), (3, [3])] + 1])"
proof -
  have ok: "input_ok [1, 2, 3] [(1, [2]), (2, [1, 3, 9]), (3, [3])]"
    by (auto simp: input_ok_def)
  moreover have "[(1, [2]), (2, [1, 3, 9]), (3, [3])] \<noteq> ([] :: graph)"
    by simp
  ultimately show ?thesis
    using dsatur_covers[of "[1, 2, 3]" "[(1, [2]), (2, [1, 3, 9]), (3, [3])]"] by blast
qed

text \<open>
  Claim C6. On the path \<open>{1:[2], 2:[1,3], 3:[2,4], 4:[3]}\<close>, whose key set
  \<open>{1, 2, 3, 4}\<close> CPython iterates in increasing order, \<open>dsatur\<close> colours vertex 2
  first with colour 1, then 3 with 2, then 1 with 2, then 4 with 1, and returns
  \<open>{1:2, 2:1, 3:2, 4:1}\<close>.
\<close>

theorem dsatur_path_example:
  "dsatur [1, 2, 3, 4] [(1, [2]), (2, [1, 3]), (3, [2, 4]), (4, [3])]
     = Inr [(2, 1), (3, 2), (1, 2), (4, 1)]"
  by code_simp

text \<open>
  Claim C7. At every loop test and for every uncoloured vertex \<open>v\<close>, the stored
  \<open>dsat[v]\<close> must be the number of distinct colours among the coloured neighbours of
  \<open>v\<close>, or the degree of \<open>v\<close> when none is coloured. The code keeps \<open>dsat\<close> current only
  for the vertices in the list of the vertex it has just coloured. In
  \<open>{1: [2, 4], 2: [1], 3: [1, 2], 4: [1]}\<close>, which the input form can build, vertex 3 lists
  1 and is not listed by it: vertex 1 is coloured first, vertices 2 and 4 are updated,
  and at the first loop test vertex 3 has one coloured neighbour, with one colour, while
  its stored value is still its degree 2.
\<close>

theorem stale_dsat_on_asymmetric_graph:
  "map_of [(1, [2, 4]), (2, [1]), (3, [1, 2]), (4, [1::vertex])] (3::vertex) = Some [1, 2] \<and>
   uncolored (hd (dsatur_states [1, 2, 3, 4] [(1, [2, 4]), (2, [1]), (3, [1, 2]), (4, [1])]))
     = [2, 3, 4] \<and>
   colors (hd (dsatur_states [1, 2, 3, 4] [(1, [2, 4]), (2, [1]), (3, [1, 2]), (4, [1])]))
     = [(1, 1)] \<and>
   dsat (hd (dsatur_states [1, 2, 3, 4] [(1, [2, 4]), (2, [1]), (3, [1, 2]), (4, [1])])) 3
     = Some 2 \<and>
   spec_DSAT [(1, 1)] [1, 2] = 1"
  by code_simp

text \<open>
  The update after the first vertex (lines 32 to 34) also lacks the degree fallback of
  the update in the loop (lines 55 to 58): in \<open>{1: [2, 3], 2: [3], 3: [2]}\<close> vertex 2 is a
  neighbour of the first vertex 1 and has no coloured neighbour of its own; its stored
  value becomes 0, and the saturation degree of the specification is its degree 1.
\<close>

lemma first_update_without_fallback:
  "map_of ([(1, [2, 3]), (2, [3]), (3, [2])] :: graph) 2 = Some [3] \<and>
   uncolored (hd (dsatur_states [1, 2, 3] [(1, [2, 3]), (2, [3]), (3, [2])])) = [2, 3] \<and>
   colors (hd (dsatur_states [1, 2, 3] [(1, [2, 3]), (2, [3]), (3, [2])])) = [(1, 1)] \<and>
   dsat (hd (dsatur_states [1, 2, 3] [(1, [2, 3]), (2, [3]), (3, [2])])) 2 = Some 0 \<and>
   spec_DSAT [(1, 1)] [3] = 1"
  by code_simp

text \<open>
  Claim C8, as amended. The program has no tie-break rule of its own: \<open>max\<close> keeps the
  first maximal element, in the insertion order of the keys for the first vertex and in
  the iteration order of the set afterwards. Two runs on the same graph (the same
  vertices with the same neighbour lists) return identical assignments whenever the
  orders of the second run resolve every tie of the first run as the first run does:
  the vertex the first run picks comes, in the second run's order, before the others that
  share its maximal key. Runs with the same orders are a case of it
  (\<open>same_tie_breaks_refl\<close>), and so are runs in which no tie occurs.
\<close>

theorem dsatur_same_tie_breaks:
  assumes i1: "input_ok it1 g1" and i2: "input_ok it2 g2"
    and m: "map_of g1 = map_of g2" and ties: "same_tie_breaks it1 g1 it2 g2"
  shows "dsatur it1 g1 = dsatur it2 g2"
proof (cases "g1 = []")
  case True
  with m have "map_of g2 = Map.empty" by simp
  then have "g2 = []" by (simp add: map_of_eq_empty_iff)
  with True show ?thesis
    by (simp add: dsatur_def init_state_def Let_def)
next
  case False
  have keys: "set (map fst g2) = set (map fst g1)"
    using keys_cong[OF m] by simp
  with False have ne2: "g2 \<noteq> []" by auto
  have deg: "degree g1 = degree g2"
    using m by (rule degree_cong)
  from init_state_spec[OF i1 False] obtain v1 ns1 s1 where r1:
    "init_state it1 g1 = Inr s1" "map_of g1 v1 = Some ns1"
    "py_max (getitem (degree g1)) (map fst g1) = Inr v1"
    "colors s1 = [(v1, 1)]" "uncolored s1 = removeAll v1 it1"
    "\<forall>u. dsat s1 u = (if u \<in> set ns1 \<and> u \<in> set (uncolored s1)
                         then first_value g1 [(v1, 1)] u else degree g1 u)"
    by blast
  from init_state_spec[OF i2 ne2] obtain v2 ns2 s2 where r2:
    "init_state it2 g2 = Inr s2" "map_of g2 v2 = Some ns2"
    "py_max (getitem (degree g2)) (map fst g2) = Inr v2"
    "colors s2 = [(v2, 1)]" "uncolored s2 = removeAll v2 it2"
    "\<forall>u. dsat s2 u = (if u \<in> set ns2 \<and> u \<in> set (uncolored s2)
                         then first_value g2 [(v2, 1)] u else degree g2 u)"
    by blast
  have defd: "\<forall>x\<in>set (map fst g1). \<exists>k. getitem (degree g1) x = Inr k"
    using dom_degree[of g1] by (auto simp: getitem_Inr)
  from False have kne: "map fst g1 \<noteq> []" by simp
  from ties have t0: "first_among_ties (getitem (degree g1)) (map fst g1) (map fst g2)"
    by (simp add: same_tie_breaks_def)
  have "py_max (getitem (degree g1)) (map fst g2) = py_max (getitem (degree g1)) (map fst g1)"
    by (rule py_max_other_order[OF defd kne keys t0])
  with r1(3) r2(3) deg have v: "v2 = v1" by simp
  with r1(2) r2(2) m have ns: "ns2 = ns1" by simp
  have its: "set it1 = set (map fst g1)" "set it2 = set (map fst g1)"
    using i1 i2 keys by (simp_all add: input_ok_def)
  have ok1: "state_ok g1 s1" using init_state_ok[OF i1 r1(1)] .
  have ok2: "state_ok g2 s2" using init_state_ok[OF i2 r2(1)] .
  have cs: "colors s1 = colors s2"
    using r1(4) r2(4) v by simp
  have sets: "set (uncolored s2) = set (uncolored s1)"
    using r1(5) r2(5) v its by simp
  have ds: "dsat s1 = dsat s2"
  proof (rule ext)
    fix u
    show "dsat s1 u = dsat s2 u"
      using r1(6) r2(6) ns v sets deg first_value_cong[OF m] by simp
  qed
  have unc: "uncolored s2 = filter (\<lambda>x. x \<in> set (uncolored s1)) it2"
  proof -
    have "uncolored s2 = filter (\<lambda>x. x \<noteq> v1) it2"
      using r2(5) v by (simp add: removeAll_filter_not_eq) (metis)
    also have "\<dots> = filter (\<lambda>x. x \<in> set (uncolored s1)) it2"
      using r1(5) its by (intro filter_cong) auto
    finally show ?thesis .
  qed
  have sub: "set (uncolored s1) \<subseteq> set it2"
    using r1(5) its by auto
  have "dsatur_states it1 g1 = loop_states g1 (degree g1) s1"
    using r1(1) by (simp add: dsatur_states_def)
  with ties have ties': "\<forall>s\<in>set (loop_states g1 (degree g1) s1).
        first_among_ties (priority (dsat s) (degree g1)) (uncolored s) it2"
    by (simp add: same_tie_breaks_def)
  from loop_simulation[OF m ok1 ok2 cs ds unc sub ties'] r1(1) r2(1) show ?thesis
    by (simp add: dsatur_def)
qed

text \<open>
  On the path 1 - 2 - 3, given with two different key orders and iterated in two different
  set orders that both put 1 before 3.
\<close>

theorem dsatur_same_tie_breaks_witness:
  "input_ok [1, 2, 3] [(1, [2]), (2, [1, 3]), (3, [2])] \<and>
   input_ok [2, 1, 3] [(3, [2]), (1, [2]), (2, [1, 3])] \<and>
   map_of ([(1, [2]), (2, [1, 3]), (3, [2])] :: graph) = map_of ([(3, [2]), (1, [2]), (2, [1, 3])] :: graph) \<and>
   same_tie_breaks [1, 2, 3] [(1, [2]), (2, [1, 3]), (3, [2])] [2, 1, 3] [(3, [2]), (1, [2]), (2, [1, 3])] \<and>
   dsatur [1, 2, 3] [(1, [2]), (2, [1, 3]), (3, [2])] = Inr [(2, 1), (1, 2), (3, 2)] \<and>
   dsatur [1, 2, 3] [(1, [2]), (2, [1, 3]), (3, [2])] = dsatur [2, 1, 3] [(3, [2]), (1, [2]), (2, [1, 3])]"
proof -
  have h1: "input_ok [1, 2, 3] [(1, [2]), (2, [1, 3]), (3, [2])]"
    by code_simp
  have h2: "input_ok [2, 1, 3] [(3, [2]), (1, [2]), (2, [1, 3])]"
    by code_simp
  have h3: "map_of ([(1, [2]), (2, [1, 3]), (3, [2])] :: graph) = map_of ([(3, [2]), (1, [2]), (2, [1, 3])] :: graph)"
    by (rule ext) simp
  have h4: "same_tie_breaks [1, 2, 3] [(1, [2]), (2, [1, 3]), (3, [2])] [2, 1, 3] [(3, [2]), (1, [2]), (2, [1, 3])]"
    by code_simp
  have h5: "dsatur [1, 2, 3] [(1, [2]), (2, [1, 3]), (3, [2])] = Inr [(2, 1), (1, 2), (3, 2)]"
    by code_simp
  from dsatur_same_tie_breaks[OF h1 h2 h3 h4] h1 h2 h3 h4 h5 show ?thesis
    by blast
qed

text \<open>
  Claim C8 as stated fails. The dictionaries \<open>{1: [2], 2: [1]}\<close> and \<open>{2: [1], 1: [2]}\<close> are
  the same graph, and equal as Python values; the two vertices tie on the degree, the
  first key wins, and the runs return \<open>{1: 1, 2: 2}\<close> and \<open>{2: 1, 1: 2}\<close>. Likewise the
  triangle on 1, 2, 8 gets colours 2 and 3 on 8 and 2 one way or the other according to
  the iteration order of the set, which the interpreter fixes and the program does not.
\<close>

theorem ties_broken_by_incidental_order:
  "map_of ([(1, [2]), (2, [1])] :: graph) = map_of ([(2, [1]), (1, [2])] :: graph) \<and>
   dsatur [1, 2] [(1, [2]), (2, [1])] = Inr [(1, 1), (2, 2)] \<and>
   dsatur [1, 2] [(2, [1]), (1, [2])] = Inr [(2, 1), (1, 2)] \<and>
   dsatur [8, 1, 2] [(1, [2, 8]), (2, [1, 8]), (8, [1, 2])] = Inr [(1, 1), (8, 2), (2, 3)] \<and>
   dsatur [1, 2, 8] [(1, [2, 8]), (2, [1, 8]), (8, [1, 2])] = Inr [(1, 1), (2, 2), (8, 3)]"
proof -
  have "map_of ([(1, [2]), (2, [1])] :: graph) = map_of ([(2, [1]), (1, [2])] :: graph)"
    by (rule ext) simp
  moreover have "dsatur [1, 2] [(1, [2]), (2, [1])] = Inr [(1, 1), (2, 2)]"
    by code_simp
  moreover have "dsatur [1, 2] [(2, [1]), (1, [2])] = Inr [(2, 1), (1, 2)]"
    by code_simp
  moreover have "dsatur [8, 1, 2] [(1, [2, 8]), (2, [1, 8]), (8, [1, 2])] = Inr [(1, 1), (8, 2), (2, 3)]"
    by code_simp
  moreover have "dsatur [1, 2, 8] [(1, [2, 8]), (2, [1, 8]), (8, [1, 2])] = Inr [(1, 1), (2, 2), (8, 3)]"
    by code_simp
  ultimately show ?thesis by blast
qed

text \<open>
  Claim C9. In every accepted graph, a vertex whose neighbour list is empty is given
  colour 1.
\<close>

theorem isolated_vertex_gets_color_1:
  assumes "input_ok it g" and "dsatur it g = Inr cs" and "map_of g v = Some []"
  shows "map_of cs v = Some 1"
proof -
  from dsatur_result[OF assms(1,2)] have
    d: "distinct (map fst cs)" and k: "set (map fst cs) = set (map fst g)"
    and gr: "greedy_from g [] cs"
    by simp_all
  from assms(3) have "v \<in> set (map fst g)"
    by (auto dest!: map_of_SomeD intro: rev_image_eqI)
  with k have "v \<in> fst ` set cs"
    by simp
  then obtain c where in_cs: "(v, c) \<in> set cs"
    by auto
  then obtain pre post where cs: "cs = pre @ (v, c) # post"
    by (auto dest: split_list)
  from greedy_entry[OF gr[unfolded cs]] assms(3) have "c = 1"
    by (simp add: neighbor_colors_def first_free_Nil)
  moreover from in_cs d have "map_of cs v = Some c"
    by (auto intro: map_of_is_SomeI)
  ultimately show ?thesis by simp
qed

text \<open>On the edge 1 - 2 with the isolated vertex 3.\<close>

theorem isolated_vertex_gets_color_1_witness:
  "input_ok [1, 2, 3] [(1, [2]), (2, [1]), (3, [])] \<and>
   dsatur [1, 2, 3] [(1, [2]), (2, [1]), (3, [])] = Inr [(1, 1), (2, 2), (3, 1)] \<and>
   map_of [(1, [2]), (2, [1]), (3, [] :: vertex list)] (3 :: vertex) = Some [] \<and>
   map_of [(1 :: vertex, 1 :: nat), (2, 2), (3, 1)] 3 = Some 1"
proof -
  have h1: "input_ok [1, 2, 3] [(1, [2]), (2, [1]), (3, [])]"
    by code_simp
  have h2: "dsatur [1, 2, 3] [(1, [2]), (2, [1]), (3, [])] = Inr [(1, 1), (2, 2), (3, 1)]"
    by code_simp
  have h3: "map_of [(1, [2]), (2, [1]), (3, [] :: vertex list)] (3 :: vertex) = Some []"
    by simp
  from isolated_vertex_gets_color_1[OF h1 h2 h3] h1 h2 h3 show ?thesis
    by blast
qed

text \<open>
  Claim C10. A graph in which a vertex \<open>v\<close> lists itself is accepted: \<open>dsatur\<close> returns an
  assignment whose keys are the vertices. At the step that colours \<open>v\<close>, \<open>v\<close> is not
  yet in \<open>colors\<close>, and its colour is the one the scan finds for the list without \<open>v\<close>.
  The degree of \<open>v\<close> used in the priority is the length of its list, one more than
  without the self-reference.
\<close>

theorem dsatur_accepts_self_loop:
  assumes "input_ok it g" and "map_of g v = Some ns" and "v \<in> set ns"
  shows "\<exists>cs pre c post. dsatur it g = Inr cs \<and> set (map fst cs) = set (map fst g) \<and>
      cs = pre @ (v, c) # post \<and> map_of pre v = None \<and>
      c = first_free (neighbor_colors pre ns) 1 \<and>
      c = first_free (neighbor_colors pre (removeAll v ns)) 1 \<and>
      degree g v = Some (length ns) \<and> length ns = Suc (length (remove1 v ns))"
proof -
  from assms(2) have ne: "g \<noteq> []" by auto
  from dsatur_run[OF assms(1) ne] obtain cs where res: "dsatur it g = Inr cs"
    by blast
  from dsatur_result[OF assms(1) res] have
    d: "distinct (map fst cs)" and k: "set (map fst cs) = set (map fst g)"
    and gr: "greedy_from g [] cs"
    by simp_all
  from assms(2) have "v \<in> set (map fst g)"
    by (auto dest!: map_of_SomeD intro: rev_image_eqI)
  with k have "v \<in> fst ` set cs"
    by simp
  then obtain c where in_cs: "(v, c) \<in> set cs"
    by auto
  then obtain pre post where cs: "cs = pre @ (v, c) # post"
    by (auto dest: split_list)
  from d cs have "v \<notin> fst ` set pre"
    by auto
  then have none: "map_of pre v = None"
    by (simp add: map_of_eq_None_iff)
  from greedy_entry[OF gr[unfolded cs]] assms(2)
  have c: "c = first_free (neighbor_colors pre ns) 1"
    by simp
  have deg: "degree g v = Some (length ns)"
    using assms(2) by (simp add: degree_eq)
  have len: "length ns = Suc (length (remove1 v ns))"
    using assms(3) by (simp add: length_remove1) (cases ns, auto)
  have c2: "c = first_free (neighbor_colors pre (removeAll v ns)) 1"
    using c none by (simp add: neighbor_colors_removeAll)
  from res k cs none c c2 deg len show ?thesis
    by blast
qed

text \<open>On \<open>{1: [1, 2], 2: [1]}\<close>, for vertex 1.\<close>

theorem dsatur_accepts_self_loop_witness:
  "input_ok [1, 2] [(1, [1, 2]), (2, [1])] \<and>
   map_of [(1, [1, 2]), (2, [1 :: vertex])] (1 :: vertex) = Some [1, 2] \<and>
   (1 :: vertex) \<in> set [1, 2] \<and>
   (\<exists>cs pre c post. dsatur [1, 2] [(1, [1, 2]), (2, [1])] = Inr cs \<and>
      set (map fst cs) = set (map fst [(1, [1, 2]), (2, [1 :: vertex])]) \<and>
      cs = pre @ (1, c) # post \<and> map_of pre 1 = None \<and>
      c = first_free (neighbor_colors pre [1, 2]) 1 \<and>
      c = first_free (neighbor_colors pre (removeAll 1 [1, 2])) 1 \<and>
      degree [(1, [1, 2]), (2, [1])] 1 = Some (length [1, 2 :: vertex]) \<and>
      length [1, 2 :: vertex] = Suc (length (remove1 1 [1, 2 :: vertex])))"
proof -
  have h1: "input_ok [1, 2] [(1, [1, 2]), (2, [1])]"
    by code_simp
  have h2: "map_of [(1, [1, 2]), (2, [1 :: vertex])] (1 :: vertex) = Some [1, 2]"
    by simp
  have h3: "(1 :: vertex) \<in> set [1, 2]"
    by simp
  from dsatur_accepts_self_loop[OF h1 h2 h3] h1 h2 h3 show ?thesis
    by blast
qed

end
